theory Spec2Isabelle
  imports Complex_Main "HOL-Library.Sublist"
begin

section \<open>Python values used by the orchestrator\<close>

text \<open>
  The exceptions that the modelled code can raise. A function that can raise returns
  \<open>error + 'a\<close>, with \<open>Inl\<close> for the exception.
\<close>

datatype error =
  ValueError | KeyError | IndexError | JSONDecodeError | AttributeError | TypeError

text \<open>
  A Python \<open>dict\<close> keeps its keys in insertion order, and that order decides what
  \<open>min\<close> and \<open>max\<close> return on ties. It is an association list with distinct keys:
  \<open>d[k] = v\<close> overwrites in place when \<open>k\<close> is present and appends otherwise.
\<close>

primrec dict_set :: "'k \<Rightarrow> 'v \<Rightarrow> ('k \<times> 'v) list \<Rightarrow> ('k \<times> 'v) list" where
  "dict_set k v [] = [(k, v)]"
| "dict_set k v (p # ps) = (if fst p = k then (k, v) # ps else p # dict_set k v ps)"

definition getitem :: "('k \<times> 'v) list \<Rightarrow> 'k \<Rightarrow> error + 'v" where
  "getitem d k = (case map_of d k of None \<Rightarrow> Inl KeyError | Some v \<Rightarrow> Inr v)"

definition keys :: "('k \<times> 'v) list \<Rightarrow> 'k list" where
  "keys d = map fst d"

text \<open>
  \<open>min(xs, key=f)\<close>: the first element whose key is smallest. The running best is
  replaced only by a strictly smaller key; an empty argument raises \<open>ValueError\<close>, and
  an exception of the key function propagates.
\<close>

fun min_loop :: "('a \<Rightarrow> error + rat) \<Rightarrow> 'a \<Rightarrow> rat \<Rightarrow> 'a list \<Rightarrow> error + 'a" where
  "min_loop key best bk [] = Inr best"
| "min_loop key best bk (x # xs) =
     (case key x of
        Inl e \<Rightarrow> Inl e
      | Inr kx \<Rightarrow> if kx < bk then min_loop key x kx xs else min_loop key best bk xs)"

definition py_min :: "('a \<Rightarrow> error + rat) \<Rightarrow> 'a list \<Rightarrow> error + 'a" where
  "py_min key xs =
     (case xs of
        [] \<Rightarrow> Inl ValueError
      | x # rest \<Rightarrow> (case key x of Inl e \<Rightarrow> Inl e | Inr kx \<Rightarrow> min_loop key x kx rest))"

section \<open>Data model (models/)\<close>

text \<open>
  The pydantic models. A Python \<open>float\<close> that is finite is a rational number and is
  compared as one; prices are \<open>rat\<close>.
\<close>

record RidePreferences =
  destination :: string
  ride_type :: string
  vehicle_type :: "string option"
  passengers :: int
  luggage :: bool
  ac_preference :: "bool option"
  budget_constraint :: "rat option"

record PriceInfo =
  app_name :: string
  quote_ride_type :: string
  estimated_price :: rat
  estimated_time :: string
  distance :: "string option"
  currency :: string
  extra_charges :: "string option"
  available :: bool

record BookingInfo =
  booking_id :: string
  booking_app_name :: string
  booking_ride_type :: string
  booking_estimated_price :: rat
  estimated_arrival :: string
  driver_name :: "string option"
  driver_rating :: "rat option"
  vehicle_details :: "string option"
  status :: string
  pickup_location :: "string option"
  booking_destination :: "string option"

section \<open>Provider agents (agents/base\_agent.py)\<close>

text \<open>
  \<open>BaseCabAgent.open_app\<close>, \<open>get_price\<close> and \<open>book_ride\<close> wrap the external
  automation run in \<open>try/except Exception\<close> and return \<open>False\<close> or \<open>None\<close> on any
  failure, so none of them raises. An agent is what these three methods return; the
  outcome of the automation is taken to be fixed for the agent and the arguments during
  one operation of the orchestrator. \<open>close_app\<close> only logs and returns \<open>True\<close>.
\<close>

record agent =
  agent_app_name :: string
  open_app :: bool
  get_price :: "string \<Rightarrow> string \<Rightarrow> RidePreferences \<Rightarrow> PriceInfo option"
  book_ride :: "string \<Rightarrow> string \<Rightarrow> RidePreferences \<Rightarrow> PriceInfo \<Rightarrow> BookingInfo option"

section \<open>The orchestrator (orchestrator.py)\<close>

text \<open>
  \<open>comparison_summary\<close> holds the rows that \<open>_build_comparison_summary\<close> prints, in
  the order it prints them (sorted by price, \<open>sorted\<close> being stable); the text of the
  rows is not modelled.
\<close>

record ComparisonResult =
  prices :: "(string \<times> PriceInfo) list"
  cheapest_app :: string
  cheapest_price :: rat
  comparison_summary :: "(string \<times> PriceInfo) list"

record orchestrator =
  agents :: "(string \<times> agent) list"
  last_comparison :: "ComparisonResult option"
  last_booking :: "BookingInfo option"

text \<open>
  \<open>_fetch_price_from_app\<close>: the whole body is inside \<open>try/except Exception\<close>, so a
  missing registry entry (\<open>KeyError\<close>) gives \<open>None\<close> like every other failure.
\<close>

definition fetch_price_from_app ::
  "orchestrator \<Rightarrow> string \<Rightarrow> string \<Rightarrow> string \<Rightarrow> RidePreferences \<Rightarrow> PriceInfo option" where
  "fetch_price_from_app st name pickup dest prefs =
     (case getitem (agents st) name of
        Inl e \<Rightarrow> None
      | Inr a \<Rightarrow> if \<not> open_app a then None else get_price a pickup dest prefs)"

text \<open>
  One element of the list returned by \<open>asyncio.gather(*tasks, return_exceptions=True)\<close>:
  the exception a task raised, or the value it returned.
\<close>

datatype gathered = Raised error | Returned "PriceInfo option"

definition gather ::
  "orchestrator \<Rightarrow> string list \<Rightarrow> string \<Rightarrow> string \<Rightarrow> RidePreferences \<Rightarrow> gathered list" where
  "gather st tasks pickup dest prefs =
     map (\<lambda>name. Returned (fetch_price_from_app st name pickup dest prefs)) tasks"

text \<open>
  The second loop of \<open>compare_prices\<close>, \<open>for i, app_name in enumerate(apps)\<close>. The
  index \<open>i\<close> counts the entries of \<open>apps\<close>, also the unregistered ones for which no task
  was made. \<open>results[i]\<close> past the end raises \<open>IndexError\<close>, which the \<open>except\<close>
  inside the loop catches; the loop then goes on with the next entry. A \<open>PriceInfo\<close>
  object is always true in \<open>if result\<close>; \<open>None\<close> is false.
\<close>

fun store_results ::
  "(string \<times> agent) list \<Rightarrow> gathered list \<Rightarrow> nat \<Rightarrow> string list \<Rightarrow>
   (string \<times> PriceInfo) list \<Rightarrow> (string \<times> PriceInfo) list" where
  "store_results ags results i [] acc = acc"
| "store_results ags results i (name # rest) acc =
     store_results ags results (Suc i) rest
       (if name \<in> set (keys ags) then
          (if i < length results then
             (case results ! i of
                Raised e \<Rightarrow> acc
              | Returned None \<Rightarrow> acc
              | Returned (Some q) \<Rightarrow> dict_set name q acc)
           else acc)
        else acc)"

definition build_comparison_summary ::
  "(string \<times> PriceInfo) list \<Rightarrow> string \<Rightarrow> (string \<times> PriceInfo) list" where
  "build_comparison_summary ps cheapest = sort_key (\<lambda>x. estimated_price (snd x)) ps"

text \<open>
  The first half of \<open>compare_prices\<close>, up to the filled \<open>prices\<close> dict: one task
  per registered entry of \<open>apps\<close>, the gathered results, and the second loop.
\<close>

definition collect_prices ::
  "orchestrator \<Rightarrow> string \<Rightarrow> string \<Rightarrow> RidePreferences \<Rightarrow> string list \<Rightarrow>
   (string \<times> PriceInfo) list" where
  "collect_prices st pickup dest prefs apps =
     (let tasks = filter (\<lambda>name. name \<in> set (keys (agents st))) apps;
          results = gather st tasks pickup dest prefs
      in store_results (agents st) results 0 apps [])"

text \<open>
  \<open>compare_prices\<close>. \<open>apps = None\<close> stands for all registered providers. The result
  is the raised exception or the \<open>ComparisonResult\<close>, with the orchestrator whose
  \<open>last_comparison\<close> has been set on success.
\<close>

definition requested :: "orchestrator \<Rightarrow> string list option \<Rightarrow> string list" where
  "requested st apps_arg = (case apps_arg of None \<Rightarrow> keys (agents st) | Some l \<Rightarrow> l)"

definition compare_prices ::
  "orchestrator \<Rightarrow> string \<Rightarrow> string \<Rightarrow> RidePreferences \<Rightarrow> string list option \<Rightarrow>
   (error + ComparisonResult) \<times> orchestrator" where
  "compare_prices st pickup dest prefs apps_arg =
     (let apps = requested st apps_arg;
          ps = collect_prices st pickup dest prefs apps
      in if ps = [] then (Inl ValueError, st)
         else
           (case py_min (\<lambda>k. map_sum id estimated_price (getitem ps k)) (keys ps) of
              Inl e \<Rightarrow> (Inl e, st)
            | Inr cheapest \<Rightarrow>
                (case getitem ps cheapest of
                   Inl e \<Rightarrow> (Inl e, st)
                 | Inr q \<Rightarrow>
                     (let r = \<lparr>prices = ps, cheapest_app = cheapest,
                                cheapest_price = estimated_price q,
                                comparison_summary = build_comparison_summary ps cheapest\<rparr>
                      in (Inr r, st\<lparr>last_comparison := Some r\<rparr>)))))"

text \<open>
  \<open>book_cheapest\<close>. Every exception inside is caught and turned into \<open>None\<close>. The
  second component of the result lists the \<open>book_ride\<close> calls that were made: the
  registry key of the agent and the quote passed to it.
\<close>

definition book_cheapest ::
  "orchestrator \<Rightarrow> string \<Rightarrow> string \<Rightarrow> RidePreferences \<Rightarrow> ComparisonResult option \<Rightarrow>
   BookingInfo option \<times> (string \<times> PriceInfo) list \<times> orchestrator" where
  "book_cheapest st pickup dest prefs comparison =
     (case (case comparison of
              None \<Rightarrow> compare_prices st pickup dest prefs None
            | Some c \<Rightarrow> (Inr c, st)) of
        (Inl e, st1) \<Rightarrow> (None, [], st1)
      | (Inr c, st1) \<Rightarrow>
          (case getitem (prices c) (cheapest_app c) of
             Inl e \<Rightarrow> (None, [], st1)
           | Inr price_info \<Rightarrow>
               (case getitem (agents st1) (cheapest_app c) of
                  Inl e \<Rightarrow> (None, [], st1)
                | Inr a \<Rightarrow>
                    (case book_ride a pickup dest prefs price_info of
                       None \<Rightarrow> (None, [(cheapest_app c, price_info)], st1)
                     | Some b \<Rightarrow>
                         (Some b, [(cheapest_app c, price_info)],
                          st1\<lparr>last_booking := Some b\<rparr>)))))"

section \<open>Python strings and regular expressions\<close>

text \<open>
  A \<open>str\<close> is a list of characters, and a character is a code point below 256 (the
  type \<open>char\<close>); text with other code points is outside the model. On these code
  points \<open>lower\<close> maps \<open>A\<close> to \<open>Z\<close> onto \<open>a\<close> to \<open>z\<close> and the capital letters
  \<open>0xC0\<close> to \<open>0xDE\<close> (without the sign \<open>0xD7\<close>) onto the letters 32 places after
  them, and leaves every other character alone.
\<close>

definition ascii_uppercase :: string where
  "ascii_uppercase = ''ABCDEFGHIJKLMNOPQRSTUVWXYZ''"

definition ascii_lowercase :: string where
  "ascii_lowercase = ''abcdefghijklmnopqrstuvwxyz''"

definition latin1_uppercase :: string where
  "latin1_uppercase =
     [CHR 0xC0, CHR 0xC1, CHR 0xC2, CHR 0xC3, CHR 0xC4, CHR 0xC5, CHR 0xC6, CHR 0xC7,
      CHR 0xC8, CHR 0xC9, CHR 0xCA, CHR 0xCB, CHR 0xCC, CHR 0xCD, CHR 0xCE, CHR 0xCF,
      CHR 0xD0, CHR 0xD1, CHR 0xD2, CHR 0xD3, CHR 0xD4, CHR 0xD5, CHR 0xD6, CHR 0xD8,
      CHR 0xD9, CHR 0xDA, CHR 0xDB, CHR 0xDC, CHR 0xDD, CHR 0xDE]"

definition latin1_lowercase :: string where
  "latin1_lowercase =
     [CHR 0xE0, CHR 0xE1, CHR 0xE2, CHR 0xE3, CHR 0xE4, CHR 0xE5, CHR 0xE6, CHR 0xE7,
      CHR 0xE8, CHR 0xE9, CHR 0xEA, CHR 0xEB, CHR 0xEC, CHR 0xED, CHR 0xEE, CHR 0xEF,
      CHR 0xF0, CHR 0xF1, CHR 0xF2, CHR 0xF3, CHR 0xF4, CHR 0xF5, CHR 0xF6, CHR 0xF8,
      CHR 0xF9, CHR 0xFA, CHR 0xFB, CHR 0xFC, CHR 0xFD, CHR 0xFE]"

definition lower_char :: "char \<Rightarrow> char" where
  "lower_char c =
     (case map_of (zip (ascii_uppercase @ latin1_uppercase)
                       (ascii_lowercase @ latin1_lowercase)) c of
        None \<Rightarrow> c
      | Some d \<Rightarrow> d)"

definition lower :: "string \<Rightarrow> string" where
  "lower s = map lower_char s"

text \<open>\<open>kw in s\<close> for two strings: \<open>kw\<close> occurs in \<open>s\<close> as a contiguous piece.\<close>

fun contains :: "string \<Rightarrow> string \<Rightarrow> bool" where
  "contains kw [] = (kw = [])"
| "contains kw (c # cs) = (prefix kw (c # cs) \<or> contains kw cs)"

text \<open>The class \<open>\d\<close>: below 256 the decimal digits are \<open>0\<close> to \<open>9\<close>.\<close>

definition digit_char :: "char \<Rightarrow> bool" where
  "digit_char c = (c \<in> set ''0123456789'')"

text \<open>
  \<open>str.isdigit\<close>: at least one character, and all of them digits. For \<open>isdigit\<close> the
  superscripts two, three and one (\<open>0xB2\<close>, \<open>0xB3\<close>, \<open>0xB9\<close>) are digits too.
\<close>

definition isdigit_char :: "char \<Rightarrow> bool" where
  "isdigit_char c = (c \<in> set ''0123456789'' \<or> c \<in> set [CHR 0xB2, CHR 0xB3, CHR 0xB9])"

definition isdigit :: "string \<Rightarrow> bool" where
  "isdigit s = (s \<noteq> [] \<and> list_all isdigit_char s)"

text \<open>
  The characters below 256 for which \<open>str.isspace\<close> holds and which \<open>\s\<close> matches:
  tab, line feed, vertical tab, form feed, carriage return, the four separators
  \<open>0x1C\<close> to \<open>0x1F\<close>, the space, next line (\<open>0x85\<close>) and the no-break space
  (\<open>0xA0\<close>).
\<close>

definition space_char :: "char \<Rightarrow> bool" where
  "space_char c =
     (c \<in> set [CHR 0x09, CHR 0x0A, CHR 0x0B, CHR 0x0C, CHR 0x0D,
                CHR 0x1C, CHR 0x1D, CHR 0x1E, CHR 0x1F, CHR 0x20, CHR 0x85, CHR 0xA0])"

definition letter_or_space :: "char \<Rightarrow> bool" where
  "letter_or_space c = (c \<in> set ascii_lowercase \<or> c \<in> set ascii_uppercase \<or> space_char c)"

definition strip :: "string \<Rightarrow> string" where
  "strip s = rev (dropWhile space_char (rev (dropWhile space_char s)))"

text \<open>
  \<open>int(s)\<close> for a string of decimal digits. CPython refuses to convert a string of more
  than 4300 digits and raises \<open>ValueError\<close> (the default of
  \<open>sys.set_int_max_str_digits\<close>).
\<close>

definition digit_value :: "char \<Rightarrow> int" where
  "digit_value c =
     (case map_of (zip ''0123456789'' [0, 1, 2, 3, 4, 5, 6, 7, 8, 9]) c of
        None \<Rightarrow> 0
      | Some d \<Rightarrow> d)"

definition py_int :: "string \<Rightarrow> error + int" where
  "py_int s =
     (if 4300 < length s then Inl ValueError
      else Inr (foldl (\<lambda>n c. 10 * n + digit_value c) 0 s))"

text \<open>
  The part of the syntax of \<open>re\<close> that the two patterns of \<open>nlp_parser.py\<close> use:
  literal text, \<open>c+\<close> and \<open>c+?\<close> for a character class \<open>c\<close>, alternation,
  sequence, \<open>r?\<close>, and the capturing group 1. \<open>(?:...)\<close> only groups and needs no
  constructor.
\<close>

datatype rx =
    Lit string
  | Plus "char \<Rightarrow> bool"
  | PlusLazy "char \<Rightarrow> bool"
  | Alt rx rx
  | Seq rx rx
  | Opt rx
  | Group rx

text \<open>
  Backtracking matching as \<open>re\<close> does it. The continuation \<open>k\<close> matches the rest of
  the pattern on the rest of the text and gets the text captured by group 1 so far.
  \<open>c+\<close> takes as many characters as it can and gives them back one at a time when the
  rest of the pattern fails; \<open>c+?\<close> takes one character and takes one more each time
  the rest of the pattern fails.
\<close>

fun greedy ::
  "(char \<Rightarrow> bool) \<Rightarrow> (string \<Rightarrow> string option \<Rightarrow> 'r option) \<Rightarrow> string \<Rightarrow> string option \<Rightarrow>
   'r option" where
  "greedy cls k [] cap = None"
| "greedy cls k (c # cs) cap =
     (if cls c then
        (case greedy cls k cs cap of Some r \<Rightarrow> Some r | None \<Rightarrow> k cs cap)
      else None)"

fun lazy ::
  "(char \<Rightarrow> bool) \<Rightarrow> (string \<Rightarrow> string option \<Rightarrow> 'r option) \<Rightarrow> string \<Rightarrow> string option \<Rightarrow>
   'r option" where
  "lazy cls k [] cap = None"
| "lazy cls k (c # cs) cap =
     (if cls c then
        (case k cs cap of Some r \<Rightarrow> Some r | None \<Rightarrow> lazy cls k cs cap)
      else None)"

fun rx_match ::
  "rx \<Rightarrow> string \<Rightarrow> string option \<Rightarrow> (string \<Rightarrow> string option \<Rightarrow> 'r option) \<Rightarrow> 'r option" where
  "rx_match (Lit l) s cap k = (if prefix l s then k (drop (length l) s) cap else None)"
| "rx_match (Plus cls) s cap k = greedy cls k s cap"
| "rx_match (PlusLazy cls) s cap k = lazy cls k s cap"
| "rx_match (Alt a b) s cap k =
     (case rx_match a s cap k of Some r \<Rightarrow> Some r | None \<Rightarrow> rx_match b s cap k)"
| "rx_match (Seq a b) s cap k = rx_match a s cap (\<lambda>s' cap'. rx_match b s' cap' k)"
| "rx_match (Opt a) s cap k =
     (case rx_match a s cap k of Some r \<Rightarrow> Some r | None \<Rightarrow> k s cap)"
| "rx_match (Group a) s cap k =
     rx_match a s cap (\<lambda>s' cap'. k s' (Some (take (length s - length s') s)))"

text \<open>
  \<open>re.search(pattern, s)\<close>: the match at the leftmost position where the pattern
  matches, or \<open>None\<close>. The result is \<open>group(1)\<close> of the match, which is itself
  \<open>None\<close> when group 1 took no part in the match.
\<close>

fun search :: "rx \<Rightarrow> string \<Rightarrow> string option option" where
  "search r [] = rx_match r [] None (\<lambda>s' cap. Some cap)"
| "search r (c # cs) =
     (case rx_match r (c # cs) None (\<lambda>s' cap. Some cap) of
        Some g \<Rightarrow> Some g
      | None \<Rightarrow> search r cs)"

section \<open>The preference extractor (tools/nlp\_parser.py, config.py)\<close>

definition COMMON_DESTINATIONS :: "(string \<times> string list) list" where
  "COMMON_DESTINATIONS =
     [(''work'', [''work'', ''office'', ''workplace'', ''company'']),
      (''home'', [''home'', ''house'', ''apartment'', ''residence'']),
      (''jaypee institute of information technology sec 62 noida'',
         [''jaypee'', ''jiit'', ''sec 62'', ''sector 62'', ''noida'']),
      (''jaypee institute of information technology sec 128 jaypee wishtown noida'',
         [''jaypee'', ''jiit'', ''sec 128'', ''sector 128'', ''wishtown'', ''noida''])]"

text \<open>
  \<open>_match_destination\<close>, first loop: \<open>matches[dest_full_name] = len(matching_keywords)\<close>
  for every entry of the table with at least one keyword in the lower-cased input.
\<close>

definition matching_keywords :: "string \<Rightarrow> string list \<Rightarrow> string list" where
  "matching_keywords user_lower keywords = filter (\<lambda>kw. contains kw user_lower) keywords"

fun collect_matches ::
  "(string \<times> string list) list \<Rightarrow> string \<Rightarrow> (string \<times> nat) list \<Rightarrow> (string \<times> nat) list" where
  "collect_matches [] user_lower matches = matches"
| "collect_matches (entry # rest) user_lower matches =
     collect_matches rest user_lower
       (if matching_keywords user_lower (snd entry) \<noteq> []
        then dict_set (fst entry) (length (matching_keywords user_lower (snd entry))) matches
        else matches)"

text \<open>
  The test of the second loop,
  \<open>len(kw) > 3 and kw.isdigit() or "sec" in kw or "sector" in kw\<close>;
  \<open>and\<close> binds tighter than \<open>or\<close>.
\<close>

definition is_specific :: "string \<Rightarrow> bool" where
  "is_specific kw = ((3 < length kw \<and> isdigit kw) \<or> contains ''sec'' kw \<or> contains ''sector'' kw)"

text \<open>
  Second loop: the first entry of the table that is in \<open>matches\<close> and has a specific
  keyword in the input.
\<close>

fun disambiguate ::
  "(string \<times> string list) list \<Rightarrow> string \<Rightarrow> (string \<times> nat) list \<Rightarrow> string option" where
  "disambiguate [] user_lower matches = None"
| "disambiguate (entry # rest) user_lower matches =
     (if fst entry \<notin> set (keys matches) then disambiguate rest user_lower matches
      else if filter (\<lambda>kw. contains kw user_lower) (filter is_specific (snd entry)) \<noteq> []
      then Some (fst entry)
      else disambiguate rest user_lower matches)"

text \<open>
  \<open>max(xs, key=f)\<close> on a list that is not empty: the first element whose key is
  largest; the running best is replaced only by a strictly larger key.
\<close>

fun max_loop :: "('a \<Rightarrow> nat) \<Rightarrow> 'a \<Rightarrow> 'a list \<Rightarrow> 'a" where
  "max_loop key best [] = best"
| "max_loop key best (x # xs) = max_loop key (if key best < key x then x else best) xs"

text \<open>
  \<open>_match_destination\<close> over a table; the three cases are \<open>not matches\<close>,
  \<open>len(matches) == 1\<close> and \<open>len(matches) > 1\<close>.
\<close>

definition match_destination_in :: "(string \<times> string list) list \<Rightarrow> string \<Rightarrow> string option" where
  "match_destination_in table user_input =
     (let user_lower = lower user_input;
          matches = collect_matches table user_lower []
      in case matches of
           [] \<Rightarrow> None
         | [m] \<Rightarrow> Some (fst m)
         | m # m' # ms \<Rightarrow>
             (case disambiguate table user_lower matches of
                Some dest \<Rightarrow> Some dest
              | None \<Rightarrow> Some (fst (max_loop snd m (m' # ms)))))"

definition match_destination :: "string \<Rightarrow> string option" where
  "match_destination user_input = match_destination_in COMMON_DESTINATIONS user_input"

text \<open>
  The pattern of line 89,
  \<open>(?:to|go to|take me to|head to|towards?|near)\s+([a-zA-Z\s]+?)(?:\s+(?:in|by|using|with|as|please|now))?\<close>.
\<close>

definition destination_pattern :: rx where
  "destination_pattern =
     Seq (Alt (Lit ''to'') (Alt (Lit ''go to'') (Alt (Lit ''take me to'') (Alt (Lit ''head to'')
            (Alt (Seq (Lit ''toward'') (Opt (Lit ''s''))) (Lit ''near''))))))
      (Seq (Plus space_char)
        (Seq (Group (PlusLazy letter_or_space))
          (Opt (Seq (Plus space_char)
             (Alt (Lit ''in'') (Alt (Lit ''by'') (Alt (Lit ''using'') (Alt (Lit ''with'')
               (Alt (Lit ''as'') (Alt (Lit ''please'') (Lit ''now'')))))))))))"

text \<open>The pattern of line 121, \<open>(\d+)\s+(?:of us|people|passengers|persons)\<close>.\<close>

definition passengers_pattern :: rx where
  "passengers_pattern =
     Seq (Group (Plus digit_char))
      (Seq (Plus space_char)
        (Alt (Lit ''of us'') (Alt (Lit ''people'') (Alt (Lit ''passengers'') (Lit ''persons'')))))"

text \<open>
  The steps of \<open>parse_ride_preferences\<close>, each on the lower-cased input.
  \<open>if not destination\<close> holds for \<open>None\<close> and for the empty string. \<open>group(1)\<close> of a
  match in which group 1 took no part is \<open>None\<close>; calling \<open>strip\<close> on it raises
  \<open>AttributeError\<close> and passing it to \<open>int\<close> raises \<open>TypeError\<close>.
\<close>

definition extract_destination :: "string \<Rightarrow> error + string" where
  "extract_destination user_input =
     (case match_destination user_input of
        Some dest \<Rightarrow>
          if dest \<noteq> [] then Inr dest
          else (case search destination_pattern (lower user_input) of
                  None \<Rightarrow> Inr ''current location''
                | Some None \<Rightarrow> Inl AttributeError
                | Some (Some g) \<Rightarrow> Inr (strip g))
      | None \<Rightarrow>
          (case search destination_pattern (lower user_input) of
             None \<Rightarrow> Inr ''current location''
           | Some None \<Rightarrow> Inl AttributeError
           | Some (Some g) \<Rightarrow> Inr (strip g)))"

definition detect_ride_type :: "string \<Rightarrow> string" where
  "detect_ride_type low =
     (if list_ex (\<lambda>word. contains word low) [''rick'', ''rickshaw'', ''auto-rickshaw'']
      then ''rickshaw''
      else if list_ex (\<lambda>word. contains word low) [''bike'', ''motorcycle'', ''two-wheeler'']
      then ''bike''
      else if list_ex (\<lambda>word. contains word low) [''auto'', ''auto rickshaw'']
      then ''auto''
      else if list_ex (\<lambda>word. contains word low) [''premium'', ''comfortable'', ''xl'', ''suv'']
      then ''premium''
      else ''car'')"

definition detect_ac_preference :: "string \<Rightarrow> bool option" where
  "detect_ac_preference low =
     (if contains ''ac'' low \<or> contains ''air'' low then Some True
      else if list_ex (\<lambda>word. contains word low) [''no ac'', ''without ac'', ''non-ac'']
      then Some False
      else None)"

definition detect_luggage :: "string \<Rightarrow> bool" where
  "detect_luggage low =
     list_ex (\<lambda>word. contains word low) [''luggage'', ''bag'', ''baggage'', ''suitcase'']"

definition detect_passengers :: "string \<Rightarrow> error + int" where
  "detect_passengers low =
     (if contains ''we'' low \<or> contains ''us'' low then
        (case search passengers_pattern low of
           None \<Rightarrow> Inr 1
         | Some None \<Rightarrow> Inl TypeError
         | Some (Some digits) \<Rightarrow> py_int digits)
      else Inr 1)"

text \<open>
  What \<open>parse_ride_preferences\<close> returns is a \<open>str\<close>: the text
  \<open>prefs.model_dump_json()\<close>, or, from the \<open>except\<close> clause, the text
  \<open>Error: \<close> followed by the message of the exception. The JSON text is represented by
  the record it serialises; pydantic accepts every Python \<open>int\<close> for \<open>passengers\<close>.
\<close>

datatype tool_output = ErrorText error | PreferencesJson RidePreferences

definition parse_ride_preferences :: "string \<Rightarrow> tool_output" where
  "parse_ride_preferences user_input =
     (case extract_destination user_input of
        Inl e \<Rightarrow> ErrorText e
      | Inr dest \<Rightarrow>
          (case detect_passengers (lower user_input) of
             Inl e \<Rightarrow> ErrorText e
           | Inr n \<Rightarrow>
               PreferencesJson
                 \<lparr>destination = dest,
                  ride_type = detect_ride_type (lower user_input),
                  vehicle_type = None,
                  passengers = n,
                  luggage = detect_luggage (lower user_input),
                  ac_preference = detect_ac_preference (lower user_input),
                  budget_constraint = None\<rparr>))"

text \<open>
  \<open>CabComparisonOrchestrator.parse_user_input\<close> (orchestrator.py): \<open>json.loads\<close> of
  the returned text and \<open>RidePreferences(**prefs_dict)\<close> give back the serialised
  record. On the text \<open>Error: ...\<close>, \<open>json.loads\<close> raises \<open>JSONDecodeError\<close>; the
  \<open>except\<close> clause logs it and raises it again.
\<close>

definition parse_user_input :: "string \<Rightarrow> error + RidePreferences" where
  "parse_user_input user_input =
     (case parse_ride_preferences user_input of
        ErrorText e \<Rightarrow> Inl JSONDecodeError
      | PreferencesJson prefs \<Rightarrow> Inr prefs)"

text \<open>
  A pattern sets group 1 in every match when the group stands on every path through
  it.
\<close>

fun sets_group :: "rx \<Rightarrow> bool" where
  "sets_group (Group a) = True"
| "sets_group (Seq a b) = (sets_group a \<or> sets_group b)"
| "sets_group (Alt a b) = (sets_group a \<and> sets_group b)"
| "sets_group (Lit l) = False"
| "sets_group (Plus cls) = False"
| "sets_group (PlusLazy cls) = False"
| "sets_group (Opt a) = False"

text \<open>A pattern without the capturing group leaves the captured text as it was.\<close>

fun groupless :: "rx \<Rightarrow> bool" where
  "groupless (Group a) = False"
| "groupless (Seq a b) = (groupless a \<and> groupless b)"
| "groupless (Alt a b) = (groupless a \<and> groupless b)"
| "groupless (Opt a) = groupless a"
| "groupless (Lit l) = True"
| "groupless (Plus cls) = True"
| "groupless (PlusLazy cls) = True"

text \<open>
  The ride-category rule in the words of the specification: keyword groups tested in a
  fixed priority order, the first group with a token in the input decides, and
  \<open>car\<close> is the default.
\<close>

definition rickshaw_tokens :: "string list" where
  "rickshaw_tokens = [''rick'', ''rickshaw'', ''auto-rickshaw'']"

definition premium_tokens :: "string list" where
  "premium_tokens = [''premium'', ''comfortable'', ''xl'', ''suv'']"

definition category_groups :: "(string list \<times> string) list" where
  "category_groups =
     [(rickshaw_tokens, ''rickshaw''),
      ([''bike'', ''motorcycle'', ''two-wheeler''], ''bike''),
      ([''auto'', ''auto rickshaw''], ''auto''),
      (premium_tokens, ''premium'')]"

definition has_token :: "string \<Rightarrow> string list \<Rightarrow> bool" where
  "has_token low tokens = list_ex (\<lambda>word. contains word low) tokens"

definition classify_by_priority :: "string \<Rightarrow> string" where
  "classify_by_priority low =
     (case find (\<lambda>g. has_token low (fst g)) category_groups of
        None \<Rightarrow> ''car''
      | Some g \<Rightarrow> snd g)"

text \<open>
  Destination disambiguation in the words of the specification. The candidates are the
  entries of the table with at least one keyword in the lower-cased input, in table
  order. The first candidate with a specific keyword in the input is returned; if there
  is none, the first candidate whose match count no other candidate exceeds.
\<close>

definition match_count :: "string \<Rightarrow> string \<times> string list \<Rightarrow> nat" where
  "match_count low entry = length (filter (\<lambda>kw. contains kw low) (snd entry))"

definition candidates :: "(string \<times> string list) list \<Rightarrow> string \<Rightarrow> (string \<times> string list) list" where
  "candidates table low = filter (\<lambda>entry. 0 < match_count low entry) table"

definition has_specific_hit :: "string \<Rightarrow> string \<times> string list \<Rightarrow> bool" where
  "has_specific_hit low entry = list_ex (\<lambda>kw. is_specific kw \<and> contains kw low) (snd entry)"

definition highest_count_first ::
  "string \<Rightarrow> (string \<times> string list) list \<Rightarrow> (string \<times> string list) option" where
  "highest_count_first low cands =
     find (\<lambda>c. list_all (\<lambda>c'. match_count low c' \<le> match_count low c) cands) cands"

definition resolve_ambiguous :: "(string \<times> string list) list \<Rightarrow> string \<Rightarrow> string option" where
  "resolve_ambiguous table low =
     (case find (has_specific_hit low) (candidates table low) of
        Some entry \<Rightarrow> Some (fst entry)
      | None \<Rightarrow> map_option fst (highest_count_first low (candidates table low)))"

text \<open>
  The input names a passenger count that \<open>int\<close> refuses: it holds \<open>we\<close> or \<open>us\<close>,
  and the passenger pattern captures more than 4300 digits.
\<close>

definition too_many_digits :: "string \<Rightarrow> bool" where
  "too_many_digits user_input =
     ((contains ''we'' (lower user_input) \<or> contains ''us'' (lower user_input)) \<and>
      (case search passengers_pattern (lower user_input) of
         Some (Some digits) \<Rightarrow> 4300 < length digits
       | _ \<Rightarrow> False))"

text \<open>An input that names a passenger count of \<open>n\<close> digits.\<close>

definition crowd :: "nat \<Rightarrow> string" where
  "crowd n = ''we '' @ replicate n (CHR ''1'') @ '' people''"

text \<open>
  What the second loop is meant to do with one entry of \<open>apps\<close>: file the result of
  the provider's own task under the provider's name.
\<close>

definition store_own ::
  "(string \<Rightarrow> PriceInfo option) \<Rightarrow> (string \<times> PriceInfo) list \<Rightarrow> string \<Rightarrow>
   (string \<times> PriceInfo) list" where
  "store_own f acc name = (case f name of None \<Rightarrow> acc | Some q \<Rightarrow> dict_set name q acc)"

text \<open>
  What the second loop does when one unregistered name stands before the registered
  ones: the entry \<open>name\<close> of \<open>apps\<close> receives the result of the task of the entry
  after it, \<open>donor\<close>.
\<close>

definition store_next ::
  "(string \<Rightarrow> PriceInfo option) \<Rightarrow> (string \<times> PriceInfo) list \<Rightarrow> string \<times> string \<Rightarrow>
   (string \<times> PriceInfo) list" where
  "store_next f acc p = (case f (snd p) of None \<Rightarrow> acc | Some q \<Rightarrow> dict_set (fst p) q acc)"

section \<open>A concrete orchestrator\<close>

text \<open>
  The registry of \<open>CabComparisonOrchestrator.__init__\<close> has the keys \<open>uber\<close>, \<open>ola\<close>
  and \<open>rapido\<close>; the goal text of each agent asks the automation for the \<open>app_name\<close>
  \<open>Uber\<close>, \<open>Ola\<close> and \<open>Rapido\<close>. The providers below answer with the prices 120,
  150 and 99 (Scenario B of the specification).
\<close>

definition quote :: "string \<Rightarrow> string \<Rightarrow> rat \<Rightarrow> PriceInfo" where
  "quote name label price =
     \<lparr>app_name = name, quote_ride_type = label, estimated_price = price,
      estimated_time = ''7 mins'', distance = None, currency = ''INR'',
      extra_charges = None, available = True\<rparr>"

definition confirmation :: "string \<Rightarrow> PriceInfo \<Rightarrow> BookingInfo" where
  "confirmation ident q =
     \<lparr>booking_id = ident, booking_app_name = app_name q,
      booking_ride_type = quote_ride_type q, booking_estimated_price = estimated_price q,
      estimated_arrival = ''5 mins'', driver_name = None, driver_rating = None,
      vehicle_details = None, status = ''confirmed'', pickup_location = None,
      booking_destination = None\<rparr>"

definition provider :: "string \<Rightarrow> PriceInfo option \<Rightarrow> bool \<Rightarrow> agent" where
  "provider name answer books =
     \<lparr>agent_app_name = name, open_app = True,
      get_price = (\<lambda>pickup dest prefs. answer),
      book_ride = (\<lambda>pickup dest prefs q. if books then Some (confirmation ''B1'' q) else None)\<rparr>"

definition some_prefs :: RidePreferences where
  "some_prefs =
     \<lparr>destination = ''airport'', ride_type = ''car'', vehicle_type = None, passengers = 1,
      luggage = False, ac_preference = None, budget_constraint = None\<rparr>"

definition three_providers :: orchestrator where
  "three_providers =
     \<lparr>agents = [(''uber'', provider ''Uber'' (Some (quote ''Uber'' ''UberGo'' 120)) True),
                (''ola'', provider ''Ola'' (Some (quote ''Ola'' ''Ola Mini'' 150)) True),
                (''rapido'', provider ''Rapido'' (Some (quote ''Rapido'' ''Rapido Bike'' 99)) False)],
      last_comparison = None, last_booking = None\<rparr>"

text \<open>The same registry when Uber returns no quote and Ola quotes 99.\<close>

definition uber_down :: orchestrator where
  "uber_down =
     \<lparr>agents = [(''uber'', provider ''Uber'' None True),
                (''ola'', provider ''Ola'' (Some (quote ''Ola'' ''Ola Mini'' 99)) True),
                (''rapido'', provider ''Rapido'' None True)],
      last_comparison = None, last_booking = None\<rparr>"

text \<open>The same registry when no provider returns a quote (Scenario D).\<close>

definition all_down :: orchestrator where
  "all_down =
     \<lparr>agents = [(''uber'', provider ''Uber'' None True),
                (''ola'', provider ''Ola'' None True),
                (''rapido'', provider ''Rapido'' None True)],
      last_comparison = None, last_booking = None\<rparr>"

text \<open>What \<open>compare_prices\<close> returns for \<open>three_providers\<close> and all providers.\<close>

definition scenario_b_result :: ComparisonResult where
  "scenario_b_result =
     \<lparr>prices = [(''uber'', quote ''Uber'' ''UberGo'' 120),
                (''ola'', quote ''Ola'' ''Ola Mini'' 150),
                (''rapido'', quote ''Rapido'' ''Rapido Bike'' 99)],
      cheapest_app = ''rapido'', cheapest_price = 99,
      comparison_summary = [(''rapido'', quote ''Rapido'' ''Rapido Bike'' 99),
                            (''uber'', quote ''Uber'' ''UberGo'' 120),
                            (''ola'', quote ''Ola'' ''Ola Mini'' 150)]\<rparr>"

text \<open>
  What \<open>compare_prices\<close> returns for \<open>three_providers\<close> and the list \<open>lyft\<close>,
  \<open>uber\<close>, \<open>ola\<close>, \<open>rapido\<close>, where \<open>lyft\<close> is not registered.
\<close>

definition shifted_result :: ComparisonResult where
  "shifted_result =
     \<lparr>prices = [(''uber'', quote ''Ola'' ''Ola Mini'' 150),
                (''ola'', quote ''Rapido'' ''Rapido Bike'' 99)],
      cheapest_app = ''ola'', cheapest_price = 99,
      comparison_summary = [(''ola'', quote ''Rapido'' ''Rapido Bike'' 99),
                            (''uber'', quote ''Ola'' ''Ola Mini'' 150)]\<rparr>"

text \<open>
  What \<open>compare_prices\<close> returns for \<open>uber_down\<close> and the list \<open>lyft\<close>, \<open>uber\<close>,
  \<open>ola\<close>, where \<open>lyft\<close> is not registered.
\<close>

definition misfiled_result :: ComparisonResult where
  "misfiled_result =
     \<lparr>prices = [(''uber'', quote ''Ola'' ''Ola Mini'' 99)],
      cheapest_app = ''uber'', cheapest_price = 99,
      comparison_summary = [(''uber'', quote ''Ola'' ''Ola Mini'' 99)]\<rparr>"

section \<open>Properties of the dict operations and of \<open>min\<close>\<close>

lemma map_of_dict_set: "map_of (dict_set k v d) = (map_of d)(k \<mapsto> v)"
  by (induction d) auto

lemma keys_dict_set:
  "keys (dict_set k v d) = (if k \<in> set (keys d) then keys d else keys d @ [k])"
  by (induction d) (auto simp: keys_def)

lemma dict_set_not_Nil: "dict_set k v d \<noteq> []"
  by (cases d) auto

lemma getitem_keys: "k \<in> set (keys d) \<Longrightarrow> \<exists>v. getitem d k = Inr v \<and> map_of d k = Some v"
  unfolding getitem_def keys_def
  by (cases "map_of d k") (auto simp: map_of_eq_None_iff)

lemma getitem_Inr_iff: "getitem d k = Inr v \<longleftrightarrow> map_of d k = Some v"
  by (simp add: getitem_def split: option.splits)

section \<open>Properties of \<open>compare_prices\<close>\<close>

lemma store_results_all_None:
  "\<forall>r \<in> set results. r = Returned None \<Longrightarrow> store_results ags results i names acc = acc"
proof (induction names arbitrary: i acc)
  case Nil
  show ?case by simp
next
  case (Cons a names)
  have r: "i < length results \<Longrightarrow> results ! i = Returned None"
    using Cons.prems nth_mem by blast
  show ?case
  proof (cases "i < length results")
    case True
    then show ?thesis using r[OF True] Cons.IH[OF Cons.prems] by simp
  next
    case False
    then show ?thesis using Cons.IH[OF Cons.prems] by simp
  qed
qed

lemma store_results_registered:
  "set rest \<subseteq> set (keys ags) \<Longrightarrow>
   store_results ags (map (\<lambda>n. Returned (f n)) (pre @ rest)) (length pre) rest acc =
   foldl (store_own f) acc rest"
proof (induction rest arbitrary: pre acc)
  case Nil
  then show ?case by simp
next
  case (Cons a rest)
  have "store_results ags (map (\<lambda>n. Returned (f n)) ((pre @ [a]) @ rest)) (length (pre @ [a])) rest acc' =
   foldl (store_own f) acc' rest" for acc'
    using Cons.prems by (intro Cons.IH) simp
  from this[of "store_own f acc a"] show ?case using Cons.prems
    by (simp add: nth_append) (simp add: store_own_def split: option.splits)
qed

lemma min_loop_first:
  assumes "\<forall>x \<in> set xs. key x = Inr (f x)"
  shows "\<exists>m pre post. min_loop key best (f best) xs = Inr m \<and> best # xs = pre @ m # post \<and>
     (\<forall>x \<in> set pre. f m < f x) \<and> (\<forall>x \<in> set post. f m \<le> f x)"
  using assms
proof (induction xs arbitrary: best)
  case Nil
  have "min_loop key best (f best) [] = Inr best \<and> best # [] = [] @ best # [] \<and>
     (\<forall>x \<in> set []. f best < f x) \<and> (\<forall>x \<in> set []. f best \<le> f x)" by simp
  then show ?case by blast
next
  case (Cons a xs)
  have ka: "key a = Inr (f a)" and rest: "\<forall>x \<in> set xs. key x = Inr (f x)"
    using Cons.prems by auto
  show ?case
  proof (cases "f a < f best")
    case True
    from Cons.IH[OF rest, of a] obtain m pre post where
      m: "min_loop key a (f a) xs = Inr m" "a # xs = pre @ m # post"
         "\<forall>x \<in> set pre. f m < f x" "\<forall>x \<in> set post. f m \<le> f x"
      by blast
    have "a \<in> set (pre @ m # post)" using m(2) by (metis list.set_intros(1))
    then have "f m \<le> f a" using m(3,4) by (auto intro: less_imp_le)
    then have lt: "f m < f best" using True by simp
    have 1: "min_loop key best (f best) (a # xs) = Inr m" using ka True m(1) by simp
    have 2: "best # a # xs = (best # pre) @ m # post" using m(2) by simp
    have 3: "\<forall>x \<in> set (best # pre). f m < f x" using m(3) lt by simp
    show ?thesis using 1 2 3 m(4) by blast
  next
    case False
    from Cons.IH[OF rest, of best] obtain m pre post where
      m: "min_loop key best (f best) xs = Inr m" "best # xs = pre @ m # post"
         "\<forall>x \<in> set pre. f m < f x" "\<forall>x \<in> set post. f m \<le> f x"
      by blast
    have 1: "min_loop key best (f best) (a # xs) = Inr m" using ka False m(1) by simp
    have "best \<in> set (pre @ m # post)" using m(2) by (metis list.set_intros(1))
    then have "f m \<le> f best" using m(3,4) by (auto intro: less_imp_le)
    then have le: "f m \<le> f a" using False by simp
    show ?thesis
    proof (cases pre)
      case Nil
      then have 2: "best # a # xs = [] @ m # (a # post)" using m(2) by simp
      have 3: "\<forall>x \<in> set (a # post). f m \<le> f x" using m(4) le by simp
      have 4: "\<forall>x \<in> set ([]::'a list). f m < f x" by simp
      show ?thesis using 1 2 3 4 by blast
    next
      case (Cons b pre')
      then have b: "b = best" "xs = pre' @ m # post" using m(2) by auto
      have "f m < f best" using m(3) Cons b by simp
      then have lt: "f m < f a" using False by simp
      have 2: "best # a # xs = (best # a # pre') @ m # post" using b by simp
      have 3: "\<forall>x \<in> set (best # a # pre'). f m < f x" using m(3) Cons b lt by simp
      show ?thesis using 1 2 3 m(4) by blast
    qed
  qed
qed

lemma py_min_first:
  assumes "xs \<noteq> []" "\<forall>x \<in> set xs. key x = Inr (f x)"
  shows "\<exists>m pre post. py_min key xs = Inr m \<and> xs = pre @ m # post \<and>
     (\<forall>x \<in> set pre. f m < f x) \<and> (\<forall>x \<in> set post. f m \<le> f x)"
proof -
  obtain x rest where xs: "xs = x # rest" using assms(1) by (cases xs) auto
  have "py_min key xs = min_loop key x (f x) rest" using assms(2) xs by (simp add: py_min_def)
  moreover have "\<forall>y \<in> set rest. key y = Inr (f y)" using assms(2) xs by simp
  ultimately show ?thesis using min_loop_first[of rest key f x] xs by simp
qed


lemma map_of_store_own:
  "map_of (store_own f acc a) = (case f a of None \<Rightarrow> map_of acc | Some q \<Rightarrow> (map_of acc)(a \<mapsto> q))"
  by (simp add: store_own_def map_of_dict_set split: option.splits)

lemma map_of_foldl_store_own:
  "map_of (foldl (store_own f) acc names) k =
     (if k \<in> set names \<and> f k \<noteq> None then f k else map_of acc k)"
proof (induction names arbitrary: acc)
  case Nil
  show ?case by simp
next
  case (Cons a names)
  show ?case
    by (cases "f a") (auto simp: Cons.IH map_of_store_own)
qed

lemma set_keys_dict_set: "set (keys (dict_set k v d)) = insert k (set (keys d))"
  by (auto simp: keys_dict_set)

lemma keys_store_results_subset:
  "set (keys (store_results ags results i names acc)) \<subseteq> set (keys acc) \<union> (set names \<inter> set (keys ags))"
proof (induction names arbitrary: i acc)
  case Nil
  show ?case by simp
next
  case (Cons a names)
  define acc' where "acc' = (if a \<in> set (keys ags) then
          (if i < length results then
             (case results ! i of
                Raised e \<Rightarrow> acc
              | Returned None \<Rightarrow> acc
              | Returned (Some q) \<Rightarrow> dict_set a q acc)
           else acc)
        else acc)"
  have 1: "set (keys acc') \<subseteq> set (keys acc) \<union> ({a} \<inter> set (keys ags))"
    by (auto simp: acc'_def set_keys_dict_set split: gathered.splits option.splits)
  have 2: "store_results ags results i (a # names) acc = store_results ags results (Suc i) names acc'"
    by (simp add: acc'_def)
  show ?case using Cons.IH[of "Suc i" acc'] 1 unfolding 2 by auto
qed

lemma distinct_keys_dict_set: "distinct (keys d) \<Longrightarrow> distinct (keys (dict_set k v d))"
  by (simp add: keys_dict_set)

lemma distinct_keys_store_results:
  "distinct (keys acc) \<Longrightarrow> distinct (keys (store_results ags results i names acc))"
proof (induction names arbitrary: i acc)
  case Nil
  then show ?case by simp
next
  case (Cons a names)
  define acc' where "acc' = (if a \<in> set (keys ags) then
          (if i < length results then
             (case results ! i of
                Raised e \<Rightarrow> acc
              | Returned None \<Rightarrow> acc
              | Returned (Some q) \<Rightarrow> dict_set a q acc)
           else acc)
        else acc)"
  have 1: "distinct (keys acc')" using Cons.prems
    by (auto simp: acc'_def distinct_keys_dict_set split: gathered.splits option.splits)
  have 2: "store_results ags results i (a # names) acc = store_results ags results (Suc i) names acc'"
    by (simp add: acc'_def)
  show ?case using Cons.IH[OF 1] unfolding 2 .
qed


lemma collect_prices_registered:
  assumes "set apps \<subseteq> set (keys (agents st))"
  shows "collect_prices st pickup dest prefs apps =
         foldl (store_own (\<lambda>n. fetch_price_from_app st n pickup dest prefs)) [] apps"
proof -
  have "filter (\<lambda>name. name \<in> set (keys (agents st))) apps = apps"
    using assms by (auto simp: filter_id_conv)
  then show ?thesis
    using store_results_registered[OF assms, of "\<lambda>n. fetch_price_from_app st n pickup dest prefs" "[]" "[]"]
    by (simp add: collect_prices_def gather_def)
qed

lemma collect_prices_all_fail:
  assumes "\<forall>name \<in> set apps. fetch_price_from_app st name pickup dest prefs = None"
  shows "collect_prices st pickup dest prefs apps = []"
proof -
  have "\<forall>r \<in> set (gather st (filter (\<lambda>name. name \<in> set (keys (agents st))) apps) pickup dest prefs).
          r = Returned None"
    using assms by (auto simp: gather_def)
  then show ?thesis
    by (simp add: collect_prices_def store_results_all_None)
qed

lemma keys_collect_prices:
  "set (keys (collect_prices st pickup dest prefs apps)) \<subseteq> set apps \<inter> set (keys (agents st))"
proof -
  have e: "set (keys ([]::(string \<times> PriceInfo) list)) = {}" by (simp add: keys_def)
  show ?thesis
    unfolding collect_prices_def Let_def
    using keys_store_results_subset[of "agents st"
        "gather st (filter (\<lambda>name. name \<in> set (keys (agents st))) apps) pickup dest prefs" 0 apps "[]"]
    unfolding e by simp
qed

lemma distinct_keys_collect_prices:
  "distinct (keys (collect_prices st pickup dest prefs apps))"
proof -
  have "distinct (keys ([]::(string \<times> PriceInfo) list))" by (simp add: keys_def)
  then show ?thesis
    unfolding collect_prices_def Let_def by (rule distinct_keys_store_results)
qed

lemma compare_prices_empty:
  assumes "collect_prices st pickup dest prefs (requested st apps_arg) = []"
  shows "compare_prices st pickup dest prefs apps_arg = (Inl ValueError, st)"
  using assms by (simp add: compare_prices_def)

lemma compare_prices_nonempty:
  assumes ne: "collect_prices st pickup dest prefs (requested st apps_arg) = ps" "ps \<noteq> []"
  shows "\<exists>c q pre post r.
           compare_prices st pickup dest prefs apps_arg = (Inr r, st\<lparr>last_comparison := Some r\<rparr>) \<and>
           r = \<lparr>prices = ps, cheapest_app = c, cheapest_price = estimated_price q,
                comparison_summary = build_comparison_summary ps c\<rparr> \<and>
           map_of ps c = Some q \<and> keys ps = pre @ c # post \<and>
           (\<forall>k \<in> set pre. \<forall>q'. map_of ps k = Some q' \<longrightarrow> estimated_price q < estimated_price q') \<and>
           (\<forall>k \<in> set post. \<forall>q'. map_of ps k = Some q' \<longrightarrow> estimated_price q \<le> estimated_price q')"
proof -
  define price where "price k = (case map_of ps k of None \<Rightarrow> 0 | Some q \<Rightarrow> estimated_price q)" for k
  define key where "key k = map_sum id estimated_price (getitem ps k)" for k
  have key: "\<forall>k \<in> set (keys ps). key k = Inr (price k)"
  proof
    fix k assume "k \<in> set (keys ps)"
    from getitem_keys[OF this] obtain v where v: "getitem ps k = Inr v" "map_of ps k = Some v"
      by auto
    have "key k = Inr (estimated_price v)" using v(1) by (simp add: key_def)
    moreover have "price k = estimated_price v" using v(2) by (simp add: price_def)
    ultimately show "key k = Inr (price k)" by simp
  qed
  have "keys ps \<noteq> []" using ne(2) by (simp add: keys_def)
  from py_min_first[OF this key] obtain c pre post where
    c: "py_min key (keys ps) = Inr c" "keys ps = pre @ c # post"
       "\<forall>x \<in> set pre. price c < price x" "\<forall>x \<in> set post. price c \<le> price x"
    by blast
  have "c \<in> set (keys ps)" using c(2) by simp
  from getitem_keys[OF this] obtain q where q: "getitem ps c = Inr q" "map_of ps c = Some q"
    by auto
  have pc: "price c = estimated_price q" using q by (simp add: price_def)
  define r where "r = \<lparr>prices = ps, cheapest_app = c, cheapest_price = estimated_price q,
                comparison_summary = build_comparison_summary ps c\<rparr>"
  have "py_min (\<lambda>k. map_sum id estimated_price (getitem ps k)) (keys ps) = Inr c"
    using c(1) unfolding key_def .
  then have 1: "compare_prices st pickup dest prefs apps_arg = (Inr r, st\<lparr>last_comparison := Some r\<rparr>)"
    using ne q(1) by (simp add: compare_prices_def r_def Let_def)
  have pk: "price k = estimated_price q'" if "map_of ps k = Some q'" for k q'
    using that by (simp add: price_def)
  have 2: "\<forall>k \<in> set pre. \<forall>q'. map_of ps k = Some q' \<longrightarrow> estimated_price q < estimated_price q'"
  proof (intro ballI allI impI)
    fix k q' assume k: "k \<in> set pre" and m: "map_of ps k = Some q'"
    have "price c < price k" using c(3) k by blast
    then show "estimated_price q < estimated_price q'" using pk[OF m] pc by simp
  qed
  have 3: "\<forall>k \<in> set post. \<forall>q'. map_of ps k = Some q' \<longrightarrow> estimated_price q \<le> estimated_price q'"
  proof (intro ballI allI impI)
    fix k q' assume k: "k \<in> set post" and m: "map_of ps k = Some q'"
    have "price c \<le> price k" using c(4) k by blast
    then show "estimated_price q \<le> estimated_price q'" using pk[OF m] pc by simp
  qed
  have "compare_prices st pickup dest prefs apps_arg = (Inr r, st\<lparr>last_comparison := Some r\<rparr>) \<and>
           r = \<lparr>prices = ps, cheapest_app = c, cheapest_price = estimated_price q,
                comparison_summary = build_comparison_summary ps c\<rparr> \<and>
           map_of ps c = Some q \<and> keys ps = pre @ c # post \<and>
           (\<forall>k \<in> set pre. \<forall>q'. map_of ps k = Some q' \<longrightarrow> estimated_price q < estimated_price q') \<and>
           (\<forall>k \<in> set post. \<forall>q'. map_of ps k = Some q' \<longrightarrow> estimated_price q \<le> estimated_price q')"
    using 1 r_def q(2) c(2) 2 3 by (intro conjI)
  then show ?thesis by (intro exI)
qed

lemma compare_prices_Inr:
  assumes "compare_prices st pickup dest prefs apps_arg = (Inr r, st')"
  shows "prices r = collect_prices st pickup dest prefs (requested st apps_arg) \<and> prices r \<noteq> [] \<and>
         st' = st\<lparr>last_comparison := Some r\<rparr> \<and>
         (\<exists>q pre post. map_of (prices r) (cheapest_app r) = Some q \<and>
            cheapest_price r = estimated_price q \<and>
            keys (prices r) = pre @ cheapest_app r # post \<and>
            (\<forall>k \<in> set pre. \<forall>q'. map_of (prices r) k = Some q' \<longrightarrow> estimated_price q < estimated_price q') \<and>
            (\<forall>k \<in> set post. \<forall>q'. map_of (prices r) k = Some q' \<longrightarrow> estimated_price q \<le> estimated_price q'))"
proof -
  define ps where "ps = collect_prices st pickup dest prefs (requested st apps_arg)"
  have ne: "ps \<noteq> []"
  proof
    assume "ps = []"
    then have "compare_prices st pickup dest prefs apps_arg = (Inl ValueError, st)"
      unfolding ps_def by (rule compare_prices_empty)
    then show False using assms by simp
  qed
  from compare_prices_nonempty[OF ps_def[symmetric] ne] obtain c q pre post r' where
    r': "compare_prices st pickup dest prefs apps_arg = (Inr r', st\<lparr>last_comparison := Some r'\<rparr>)"
        "r' = \<lparr>prices = ps, cheapest_app = c, cheapest_price = estimated_price q,
                comparison_summary = build_comparison_summary ps c\<rparr>"
        "map_of ps c = Some q" "keys ps = pre @ c # post"
        "\<forall>k \<in> set pre. \<forall>q'. map_of ps k = Some q' \<longrightarrow> estimated_price q < estimated_price q'"
        "\<forall>k \<in> set post. \<forall>q'. map_of ps k = Some q' \<longrightarrow> estimated_price q \<le> estimated_price q'"
    by auto
  have eq: "r = r'" "st' = st\<lparr>last_comparison := Some r'\<rparr>" using assms r'(1) by auto
  have p: "prices r = ps" "cheapest_app r = c" "cheapest_price r = estimated_price q"
    using eq(1) r'(2) by simp_all
  have "map_of (prices r) (cheapest_app r) = Some q \<and>
            cheapest_price r = estimated_price q \<and>
            keys (prices r) = pre @ cheapest_app r # post \<and>
            (\<forall>k \<in> set pre. \<forall>q'. map_of (prices r) k = Some q' \<longrightarrow> estimated_price q < estimated_price q') \<and>
            (\<forall>k \<in> set post. \<forall>q'. map_of (prices r) k = Some q' \<longrightarrow> estimated_price q \<le> estimated_price q')"
    unfolding p using r'(3-6) by simp
  then have "\<exists>q pre post. map_of (prices r) (cheapest_app r) = Some q \<and>
            cheapest_price r = estimated_price q \<and>
            keys (prices r) = pre @ cheapest_app r # post \<and>
            (\<forall>k \<in> set pre. \<forall>q'. map_of (prices r) k = Some q' \<longrightarrow> estimated_price q < estimated_price q') \<and>
            (\<forall>k \<in> set post. \<forall>q'. map_of (prices r) k = Some q' \<longrightarrow> estimated_price q \<le> estimated_price q')"
    by (intro exI)
  then show ?thesis using p(1) ne eq ps_def by simp
qed

lemma compare_prices_Inl:
  assumes "compare_prices st pickup dest prefs apps_arg = (Inl e, st')"
  shows "e = ValueError \<and> st' = st \<and> collect_prices st pickup dest prefs (requested st apps_arg) = []"
proof (cases "collect_prices st pickup dest prefs (requested st apps_arg) = []")
  case True
  then show ?thesis using compare_prices_empty[OF True] assms by simp
next
  case False
  from compare_prices_nonempty[OF refl False] obtain r' where
    "compare_prices st pickup dest prefs apps_arg = (Inr r', st\<lparr>last_comparison := Some r'\<rparr>)"
    by auto
  then show ?thesis using assms by simp
qed

lemma three_providers_compare:
  "compare_prices three_providers ''home'' ''airport'' some_prefs None =
     (Inr scenario_b_result, three_providers\<lparr>last_comparison := Some scenario_b_result\<rparr>)"
  by (simp add: compare_prices_def collect_prices_def requested_def gather_def
      fetch_price_from_app_def getitem_def keys_def three_providers_def provider_def
      py_min_def build_comparison_summary_def quote_def scenario_b_result_def Let_def)

lemma set_dict_set: "set (dict_set k v d) \<subseteq> insert (k, v) (set d)"
  by (induction d) auto

lemma values_store_results:
  "(k, q) \<in> set (store_results ags results i names acc) \<Longrightarrow>
   (k, q) \<in> set acc \<or> Returned (Some q) \<in> set results"
proof (induction names arbitrary: i acc)
  case Nil
  then show ?case by simp
next
  case (Cons a names)
  define acc' where "acc' = (if a \<in> set (keys ags) then
          (if i < length results then
             (case results ! i of
                Raised e \<Rightarrow> acc
              | Returned None \<Rightarrow> acc
              | Returned (Some q) \<Rightarrow> dict_set a q acc)
           else acc)
        else acc)"
  have 1: "(k, q) \<in> set acc' \<Longrightarrow> (k, q) \<in> set acc \<or> Returned (Some q) \<in> set results"
  proof (cases "i < length results \<and> a \<in> set (keys ags)")
    case False
    then show "(k, q) \<in> set acc' \<Longrightarrow> ?thesis" by (auto simp: acc'_def split: if_splits)
  next
    case True
    assume kq: "(k, q) \<in> set acc'"
    show ?thesis
    proof (cases "results ! i")
      case (Raised e)
      then show ?thesis using kq True by (simp add: acc'_def)
    next
      case (Returned x)
      show ?thesis
      proof (cases x)
        case None
        then show ?thesis using kq True Returned by (simp add: acc'_def)
      next
        case (Some q')
        then have "acc' = dict_set a q' acc" using True Returned by (simp add: acc'_def)
        then have "(k, q) = (a, q') \<or> (k, q) \<in> set acc" using kq set_dict_set[of a q' acc] by auto
        moreover have "Returned (Some q') \<in> set results"
          using True Returned Some nth_mem[of i results] by simp
        ultimately show ?thesis by auto
      qed
    qed
  qed
  have 2: "store_results ags results i (a # names) acc = store_results ags results (Suc i) names acc'"
    by (simp add: acc'_def)
  from Cons.prems have "(k, q) \<in> set (store_results ags results (Suc i) names acc')"
    unfolding 2 .
  from Cons.IH[OF this] 1 show ?case by blast
qed

lemma collect_prices_values:
  assumes "map_of (collect_prices st pickup dest prefs apps) k = Some q"
  shows "\<exists>name \<in> set apps \<inter> set (keys (agents st)). fetch_price_from_app st name pickup dest prefs = Some q"
proof -
  define tasks where "tasks = filter (\<lambda>name. name \<in> set (keys (agents st))) apps"
  have "(k, q) \<in> set (store_results (agents st) (gather st tasks pickup dest prefs) 0 apps [])"
    using assms map_of_SomeD unfolding collect_prices_def Let_def tasks_def by fast
  from values_store_results[OF this]
  have "Returned (Some q) \<in> set (gather st tasks pickup dest prefs)" by simp
  then obtain name where "name \<in> set tasks" "fetch_price_from_app st name pickup dest prefs = Some q"
    unfolding gather_def by auto
  then show ?thesis unfolding tasks_def by auto
qed

lemma collect_prices_own:
  assumes "set apps \<subseteq> set (keys (agents st))"
  shows "map_of (collect_prices st pickup dest prefs apps) k =
         (if k \<in> set apps then fetch_price_from_app st k pickup dest prefs else None)"
  unfolding collect_prices_registered[OF assms] map_of_foldl_store_own
  by (cases "fetch_price_from_app st k pickup dest prefs") simp_all

lemma store_results_shifted:
  "set names \<subseteq> set (keys ags) \<Longrightarrow>
   store_results ags (map (\<lambda>n. Returned (f n)) (pre @ names)) (Suc (length pre)) names acc =
   foldl (store_next f) acc (zip names (tl names))"
proof (induction names arbitrary: pre acc)
  case Nil
  show ?case by simp
next
  case (Cons a names)
  have reg: "a \<in> set (keys ags)" and rest: "set names \<subseteq> set (keys ags)"
    using Cons.prems by simp_all
  have IH: "store_results ags (map (\<lambda>n. Returned (f n)) ((pre @ [a]) @ names))
              (Suc (length (pre @ [a]))) names acc' =
            foldl (store_next f) acc' (zip names (tl names))" for acc'
    by (rule Cons.IH[OF rest])
  show ?case
  proof (cases names)
    case Nil
    then show ?thesis using reg by simp
  next
    case (Cons b names')
    have i: "Suc (length pre) < length (map (\<lambda>n. Returned (f n)) (pre @ a # names))"
      using Cons by simp
    have n: "map (\<lambda>n. Returned (f n)) (pre @ a # names) ! Suc (length pre) = Returned (f b)"
      using Cons by (simp add: nth_append)
    have acc: "(case Returned (f b) of Raised e \<Rightarrow> acc | Returned None \<Rightarrow> acc
                | Returned (Some q) \<Rightarrow> dict_set a q acc) = store_next f acc (a, b)"
      by (simp add: store_next_def split: option.splits)
    have "store_results ags (map (\<lambda>n. Returned (f n)) (pre @ a # names)) (Suc (length pre)) (a # names) acc =
          store_results ags (map (\<lambda>n. Returned (f n)) (pre @ a # names)) (Suc (Suc (length pre))) names
            (store_next f acc (a, b))"
      using reg i n acc by simp
    also have "\<dots> = foldl (store_next f) (store_next f acc (a, b)) (zip names (tl names))"
      using IH[of "store_next f acc (a, b)"] by simp
    also have "\<dots> = foldl (store_next f) acc (zip (a # names) (tl (a # names)))"
      using Cons by simp
    finally show ?thesis .
  qed
qed

lemma collect_prices_shifted:
  assumes "u \<notin> set (keys (agents st))" "set rest \<subseteq> set (keys (agents st))"
  shows "collect_prices st pickup dest prefs (u # rest) =
         foldl (store_next (\<lambda>n. fetch_price_from_app st n pickup dest prefs)) []
           (zip rest (tl rest))"
proof -
  have "filter (\<lambda>name. name \<in> set (keys (agents st))) rest = rest"
    using assms(2) by (auto simp: filter_id_conv)
  then have "collect_prices st pickup dest prefs (u # rest) =
     store_results (agents st)
       (map (\<lambda>n. Returned (fetch_price_from_app st n pickup dest prefs)) ([] @ rest))
       (Suc (length ([]::string list))) rest []"
    using assms(1) by (simp add: collect_prices_def gather_def)
  then show ?thesis
    using store_results_shifted[OF assms(2), of "\<lambda>n. fetch_price_from_app st n pickup dest prefs" "[]" "[]"]
    by simp
qed

lemma keys_store_own:
  "keys (store_own f acc a) =
     (if f a \<noteq> None \<and> a \<notin> set (keys acc) then keys acc @ [a] else keys acc)"
  by (cases "f a") (simp_all add: store_own_def keys_dict_set)

lemma keys_foldl_store_own:
  "distinct names \<Longrightarrow>
   keys (foldl (store_own f) acc names) =
   keys acc @ filter (\<lambda>n. f n \<noteq> None \<and> n \<notin> set (keys acc)) names"
proof (induction names arbitrary: acc)
  case Nil
  show ?case by simp
next
  case (Cons a names)
  have d: "distinct names" and a: "a \<notin> set names" using Cons.prems by simp_all
  have same: "filter (\<lambda>n. f n \<noteq> None \<and> n \<notin> set (keys (store_own f acc a))) names =
              filter (\<lambda>n. f n \<noteq> None \<and> n \<notin> set (keys acc)) names"
    using a by (intro filter_cong refl) (auto simp: keys_store_own)
  have "keys (foldl (store_own f) acc (a # names)) =
        keys (store_own f acc a) @ filter (\<lambda>n. f n \<noteq> None \<and> n \<notin> set (keys acc)) names"
    using Cons.IH[OF d, of "store_own f acc a"] same by simp
  then show ?case by (simp add: keys_store_own)
qed

lemma filter_eq_append_ConsD:
  "filter P xs = ys @ c # zs \<Longrightarrow>
   \<exists>us vs. xs = us @ c # vs \<and> filter P us = ys \<and> filter P vs = zs"
proof (induction ys arbitrary: xs)
  case Nil
  then have "filter P xs = c # zs" by simp
  then obtain us vs where "xs = us @ c # vs" "\<forall>u \<in> set us. \<not> P u" "zs = filter P vs"
    unfolding filter_eq_Cons_iff by auto
  then have "xs = us @ c # vs \<and> filter P us = [] \<and> filter P vs = zs" by simp
  then show ?case by blast
next
  case (Cons y ys)
  then have "filter P xs = y # (ys @ c # zs)" by simp
  then obtain us vs where 1: "xs = us @ y # vs" "\<forall>u \<in> set us. \<not> P u" "P y"
      "ys @ c # zs = filter P vs"
    unfolding filter_eq_Cons_iff by auto
  from Cons.IH[OF 1(4)[symmetric]] obtain us' vs' where
    2: "vs = us' @ c # vs'" "filter P us' = ys" "filter P vs' = zs" by auto
  have "xs = (us @ y # us') @ c # vs' \<and> filter P (us @ y # us') = y # ys \<and> filter P vs' = zs"
    using 1 2 by simp
  then show ?case by blast
qed

text \<open>
  When every entry of \<open>apps\<close> is registered and no entry is repeated, the selected
  provider is the first entry of \<open>apps\<close> among those with the smallest quoted price.
\<close>

lemma compare_prices_cheapest_registered:
  assumes reg: "set apps \<subseteq> set (keys (agents st))" and dist: "distinct apps"
    and cmp: "compare_prices st pickup dest prefs (Some apps) = (Inr r, st')"
  shows "\<exists>q pre post. apps = pre @ cheapest_app r # post \<and>
           fetch_price_from_app st (cheapest_app r) pickup dest prefs = Some q \<and>
           cheapest_price r = estimated_price q \<and>
           (\<forall>n \<in> set pre. \<forall>q'. fetch_price_from_app st n pickup dest prefs = Some q' \<longrightarrow>
              estimated_price q < estimated_price q') \<and>
           (\<forall>n \<in> set post. \<forall>q'. fetch_price_from_app st n pickup dest prefs = Some q' \<longrightarrow>
              estimated_price q \<le> estimated_price q')"
proof -
  define f where "f n = fetch_price_from_app st n pickup dest prefs" for n
  note R = compare_prices_Inr[OF cmp]
  have p: "prices r = collect_prices st pickup dest prefs apps"
    using R by (simp add: requested_def)
  have own: "map_of (prices r) k = (if k \<in> set apps then f k else None)" for k
    unfolding p f_def by (rule collect_prices_own[OF reg])
  have "keys (prices r) = keys (foldl (store_own f) [] apps)"
    unfolding p f_def collect_prices_registered[OF reg] ..
  also have "\<dots> = filter (\<lambda>n. f n \<noteq> None) apps"
    using keys_foldl_store_own[OF dist, of f "[]"] by (simp add: keys_def)
  finally have k: "keys (prices r) = filter (\<lambda>n. f n \<noteq> None) apps" .
  from R obtain q pre' post' where
    q: "map_of (prices r) (cheapest_app r) = Some q" "cheapest_price r = estimated_price q"
       "keys (prices r) = pre' @ cheapest_app r # post'"
       "\<forall>k \<in> set pre'. \<forall>q'. map_of (prices r) k = Some q' \<longrightarrow> estimated_price q < estimated_price q'"
       "\<forall>k \<in> set post'. \<forall>q'. map_of (prices r) k = Some q' \<longrightarrow> estimated_price q \<le> estimated_price q'"
    by auto
  have "filter (\<lambda>n. f n \<noteq> None) apps = pre' @ cheapest_app r # post'"
    using k q(3) by simp
  from filter_eq_append_ConsD[OF this] obtain pre post where
    split: "apps = pre @ cheapest_app r # post" and pre: "filter (\<lambda>n. f n \<noteq> None) pre = pre'"
    and post: "filter (\<lambda>n. f n \<noteq> None) post = post'"
    by auto
  have c_in: "cheapest_app r \<in> set apps" unfolding split by simp
  have fq: "f (cheapest_app r) = Some q" using own[of "cheapest_app r"] q(1) c_in by simp
  have before: "\<forall>n \<in> set pre. \<forall>q'. f n = Some q' \<longrightarrow> estimated_price q < estimated_price q'"
  proof (intro ballI allI impI)
    fix n q' assume n: "n \<in> set pre" and fn: "f n = Some q'"
    have 1: "n \<in> set pre'" using n fn pre by auto
    have "n \<in> set apps" using n unfolding split by simp
    then have "map_of (prices r) n = Some q'" using own[of n] fn by simp
    then show "estimated_price q < estimated_price q'" using q(4) 1 by blast
  qed
  have after: "\<forall>n \<in> set post. \<forall>q'. f n = Some q' \<longrightarrow> estimated_price q \<le> estimated_price q'"
  proof (intro ballI allI impI)
    fix n q' assume n: "n \<in> set post" and fn: "f n = Some q'"
    have 1: "n \<in> set post'" using n fn post by auto
    have "n \<in> set apps" using n unfolding split by simp
    then have "map_of (prices r) n = Some q'" using own[of n] fn by simp
    then show "estimated_price q \<le> estimated_price q'" using q(5) 1 by blast
  qed
  have "apps = pre @ cheapest_app r # post \<and>
           f (cheapest_app r) = Some q \<and>
           cheapest_price r = estimated_price q \<and>
           (\<forall>n \<in> set pre. \<forall>q'. f n = Some q' \<longrightarrow> estimated_price q < estimated_price q') \<and>
           (\<forall>n \<in> set post. \<forall>q'. f n = Some q' \<longrightarrow> estimated_price q \<le> estimated_price q')"
    using split fq q(2) before after by (intro conjI)
  then show ?thesis unfolding f_def by (intro exI)
qed

lemma compare_prices_by_collect:
  "(collect_prices st pickup dest prefs (requested st apps_arg) = [] \<longrightarrow>
      compare_prices st pickup dest prefs apps_arg = (Inl ValueError, st)) \<and>
   (collect_prices st pickup dest prefs (requested st apps_arg) \<noteq> [] \<longrightarrow>
      (\<exists>r. compare_prices st pickup dest prefs apps_arg =
             (Inr r, st\<lparr>last_comparison := Some r\<rparr>) \<and>
           prices r = collect_prices st pickup dest prefs (requested st apps_arg)))"
proof (intro conjI impI)
  assume "collect_prices st pickup dest prefs (requested st apps_arg) = []"
  then show "compare_prices st pickup dest prefs apps_arg = (Inl ValueError, st)"
    by (rule compare_prices_empty)
next
  assume ne: "collect_prices st pickup dest prefs (requested st apps_arg) \<noteq> []"
  obtain res st' where c: "compare_prices st pickup dest prefs apps_arg = (res, st')"
    by (cases "compare_prices st pickup dest prefs apps_arg")
  show "\<exists>r. compare_prices st pickup dest prefs apps_arg =
             (Inr r, st\<lparr>last_comparison := Some r\<rparr>) \<and>
           prices r = collect_prices st pickup dest prefs (requested st apps_arg)"
  proof (cases res)
    case (Inl e)
    then have "compare_prices st pickup dest prefs apps_arg = (Inl e, st')" using c by simp
    from compare_prices_Inl[OF this] ne show ?thesis by simp
  next
    case (Inr r)
    then have cr: "compare_prices st pickup dest prefs apps_arg = (Inr r, st')" using c by simp
    note R = compare_prices_Inr[OF cr]
    have 1: "prices r = collect_prices st pickup dest prefs (requested st apps_arg)"
      using R by (rule conjunct1)
    have 2: "st' = st\<lparr>last_comparison := Some r\<rparr>"
      using R by (rule conjunct2[THEN conjunct2, THEN conjunct1])
    have "compare_prices st pickup dest prefs apps_arg =
             (Inr r, st\<lparr>last_comparison := Some r\<rparr>) \<and>
           prices r = collect_prices st pickup dest prefs (requested st apps_arg)"
      using cr 1 unfolding 2 by (intro conjI)
    then show ?thesis by (rule exI)
  qed
qed

lemma three_providers_compare_shifted:
  "compare_prices three_providers ''home'' ''airport'' some_prefs
       (Some [''lyft'', ''uber'', ''ola'', ''rapido'']) =
     (Inr shifted_result, three_providers\<lparr>last_comparison := Some shifted_result\<rparr>)"
  by (simp add: compare_prices_def collect_prices_def requested_def gather_def
      fetch_price_from_app_def getitem_def keys_def three_providers_def provider_def
      py_min_def build_comparison_summary_def quote_def shifted_result_def Let_def)

section \<open>The claims about the orchestrator\<close>

text \<open>
  Claim C2. If every requested provider fails to return a quote, \<open>compare_prices\<close>
  raises \<open>ValueError\<close> and leaves the orchestrator as it was (no \<open>ComparisonResult\<close>
  is built or remembered); and whenever it does return a \<open>ComparisonResult\<close>, the
  quote map of that result is not empty.
\<close>

theorem compare_prices_no_quotes:
  "((\<forall>name \<in> set (requested st apps_arg). fetch_price_from_app st name pickup dest prefs = None) \<longrightarrow>
      compare_prices st pickup dest prefs apps_arg = (Inl ValueError, st)) \<and>
   (\<forall>r st'. compare_prices st pickup dest prefs apps_arg = (Inr r, st') \<longrightarrow> prices r \<noteq> [])"
proof (intro conjI impI allI)
  assume "\<forall>name \<in> set (requested st apps_arg). fetch_price_from_app st name pickup dest prefs = None"
  then have "collect_prices st pickup dest prefs (requested st apps_arg) = []"
    by (rule collect_prices_all_fail)
  then show "compare_prices st pickup dest prefs apps_arg = (Inl ValueError, st)"
    by (rule compare_prices_empty)
next
  fix r st' assume "compare_prices st pickup dest prefs apps_arg = (Inr r, st')"
  then show "prices r \<noteq> []"
    by (rule compare_prices_Inr[THEN conjunct2, THEN conjunct1])
qed

theorem compare_prices_no_quotes_witness:
  "requested all_down None = [''uber'', ''ola'', ''rapido''] \<and>
   fetch_price_from_app all_down ''uber'' ''home'' ''airport'' some_prefs = None \<and>
   fetch_price_from_app all_down ''ola'' ''home'' ''airport'' some_prefs = None \<and>
   fetch_price_from_app all_down ''rapido'' ''home'' ''airport'' some_prefs = None \<and>
   compare_prices all_down ''home'' ''airport'' some_prefs None = (Inl ValueError, all_down) \<and>
   prices scenario_b_result \<noteq> []"
proof -
  have h: "\<forall>name \<in> set (requested all_down None).
      fetch_price_from_app all_down name ''home'' ''airport'' some_prefs = None"
    by (simp add: requested_def keys_def all_down_def fetch_price_from_app_def getitem_def
        provider_def)
  have 1: "compare_prices all_down ''home'' ''airport'' some_prefs None = (Inl ValueError, all_down)"
    using compare_prices_no_quotes[of all_down None "''home''" "''airport''" some_prefs] h
    by blast
  have 2: "prices scenario_b_result \<noteq> []"
    using compare_prices_no_quotes[of three_providers None "''home''" "''airport''" some_prefs]
      three_providers_compare
    by blast
  have 3: "requested all_down None = [''uber'', ''ola'', ''rapido'']"
    by (simp add: requested_def keys_def all_down_def)
  show ?thesis using h 1 2 unfolding 3 by simp
qed

text \<open>
  Claim C4, as amended. Every \<open>ComparisonResult\<close> that \<open>compare_prices\<close> returns has
  a quote map that is not empty, whose keys are distinct registry keys of the
  orchestrator; \<open>cheapest_app\<close> is one of these keys and \<open>cheapest_price\<close> is the price
  stored under it; and every stored quote is one that the fetch of some registered
  provider returned. The \<open>app_name\<close> inside a stored quote is whatever the automation
  answered and is not compared with the key.
\<close>

theorem comparison_result_invariant:
  assumes "compare_prices st pickup dest prefs apps_arg = (Inr r, st')"
  shows "prices r \<noteq> [] \<and> distinct (keys (prices r)) \<and>
         set (keys (prices r)) \<subseteq> set (keys (agents st)) \<and>
         cheapest_app r \<in> set (keys (prices r)) \<and>
         (\<exists>q. map_of (prices r) (cheapest_app r) = Some q \<and> cheapest_price r = estimated_price q) \<and>
         (\<forall>k q. map_of (prices r) k = Some q \<longrightarrow>
            (\<exists>name \<in> set (keys (agents st)). fetch_price_from_app st name pickup dest prefs = Some q))"
proof -
  note R = compare_prices_Inr[OF assms]
  have p: "prices r = collect_prices st pickup dest prefs (requested st apps_arg)"
    using R by (rule conjunct1)
  have 1: "prices r \<noteq> []" using R by (rule conjunct2[THEN conjunct1])
  have 2: "distinct (keys (prices r))" unfolding p by (rule distinct_keys_collect_prices)
  have 3: "set (keys (prices r)) \<subseteq> set (keys (agents st))"
    unfolding p using keys_collect_prices[of st pickup dest prefs "requested st apps_arg"] by simp
  from R obtain q pre post where
    q: "map_of (prices r) (cheapest_app r) = Some q" "cheapest_price r = estimated_price q"
       "keys (prices r) = pre @ cheapest_app r # post"
    by auto
  have 4: "cheapest_app r \<in> set (keys (prices r))" unfolding q(3) by simp
  have 5: "\<exists>q. map_of (prices r) (cheapest_app r) = Some q \<and> cheapest_price r = estimated_price q"
    using q(1,2) by (intro exI conjI)
  have 6: "\<forall>k q. map_of (prices r) k = Some q \<longrightarrow>
            (\<exists>name \<in> set (keys (agents st)). fetch_price_from_app st name pickup dest prefs = Some q)"
  proof (intro allI impI)
    fix k q assume "map_of (prices r) k = Some q"
    then have "map_of (collect_prices st pickup dest prefs (requested st apps_arg)) k = Some q"
      unfolding p .
    from collect_prices_values[OF this]
    show "\<exists>name \<in> set (keys (agents st)). fetch_price_from_app st name pickup dest prefs = Some q"
      by auto
  qed
  show ?thesis using 1 2 3 4 5 6 by (intro conjI)
qed

theorem comparison_result_invariant_witness:
  "prices scenario_b_result \<noteq> [] \<and> distinct (keys (prices scenario_b_result)) \<and>
   cheapest_app scenario_b_result \<in> set (keys (prices scenario_b_result)) \<and>
   set (keys (prices scenario_b_result)) \<subseteq> set (keys (agents three_providers))"
  using comparison_result_invariant[OF three_providers_compare] by (intro conjI) simp_all

text \<open>
  The claim C4 as stated fails: in Scenario B the quote stored under the key \<open>uber\<close>
  carries the \<open>app_name\<close> \<open>Uber\<close>, as the goal text of the Uber agent asks.
\<close>

theorem quote_app_name_differs_from_key:
  "compare_prices three_providers ''home'' ''airport'' some_prefs None =
     (Inr scenario_b_result, three_providers\<lparr>last_comparison := Some scenario_b_result\<rparr>) \<and>
   map_of (prices scenario_b_result) ''uber'' = Some (quote ''Uber'' ''UberGo'' 120) \<and>
   app_name (quote ''Uber'' ''UberGo'' 120) = ''Uber'' \<and> ''Uber'' \<noteq> ''uber''"
  using three_providers_compare by (simp add: scenario_b_result_def quote_def)

text \<open>
  Claim C5. \<open>book_cheapest\<close> without a comparison first runs \<open>compare_prices\<close> over all
  registered providers. If that raises, the result is \<open>None\<close> and no booking call is
  made. Otherwise exactly one \<open>book_ride\<close> call is made, on the agent registered under
  the winning provider's key and with the quote that this provider's own fetch returned;
  the result of \<open>book_cheapest\<close> is the result of that one call, so a failed booking
  gives \<open>None\<close> and no other provider is tried.
\<close>

theorem book_cheapest_books_winner_only:
  "(\<forall>e st1. compare_prices st pickup dest prefs None = (Inl e, st1) \<longrightarrow>
       book_cheapest st pickup dest prefs None = (None, [], st1)) \<and>
   (\<forall>r st1. compare_prices st pickup dest prefs None = (Inr r, st1) \<longrightarrow>
      (\<exists>a q. map_of (agents st) (cheapest_app r) = Some a \<and>
             fetch_price_from_app st (cheapest_app r) pickup dest prefs = Some q \<and>
             book_cheapest st pickup dest prefs None =
               (book_ride a pickup dest prefs q, [(cheapest_app r, q)],
                case book_ride a pickup dest prefs q of
                  None \<Rightarrow> st1
                | Some b \<Rightarrow> st1\<lparr>last_booking := Some b\<rparr>)))"
proof (intro conjI allI impI)
  fix e st1 assume "compare_prices st pickup dest prefs None = (Inl e, st1)"
  then show "book_cheapest st pickup dest prefs None = (None, [], st1)"
    by (simp add: book_cheapest_def)
next
  fix r st1 assume cmp: "compare_prices st pickup dest prefs None = (Inr r, st1)"
  note R = compare_prices_Inr[OF cmp]
  have p: "prices r = collect_prices st pickup dest prefs (keys (agents st))"
    using R by (simp add: requested_def)
  have st1: "agents st1 = agents st" using R by simp
  from R obtain q where q: "map_of (prices r) (cheapest_app r) = Some q" by auto
  have own: "map_of (prices r) (cheapest_app r) =
      (if cheapest_app r \<in> set (keys (agents st))
       then fetch_price_from_app st (cheapest_app r) pickup dest prefs else None)"
    unfolding p by (rule collect_prices_own) simp
  have reg: "cheapest_app r \<in> set (keys (agents st))"
    using own q by (cases "cheapest_app r \<in> set (keys (agents st))") simp_all
  have f: "fetch_price_from_app st (cheapest_app r) pickup dest prefs = Some q"
    using own q reg by simp
  from getitem_keys[OF reg] obtain a where
    a: "getitem (agents st) (cheapest_app r) = Inr a" "map_of (agents st) (cheapest_app r) = Some a"
    by auto
  have g: "getitem (prices r) (cheapest_app r) = Inr q" using q by (simp add: getitem_Inr_iff)
  have b: "book_cheapest st pickup dest prefs None =
               (book_ride a pickup dest prefs q, [(cheapest_app r, q)],
                case book_ride a pickup dest prefs q of
                  None \<Rightarrow> st1
                | Some b \<Rightarrow> st1\<lparr>last_booking := Some b\<rparr>)"
    using cmp g a(1) st1 by (cases "book_ride a pickup dest prefs q") (simp_all add: book_cheapest_def)
  show "\<exists>a q. map_of (agents st) (cheapest_app r) = Some a \<and>
             fetch_price_from_app st (cheapest_app r) pickup dest prefs = Some q \<and>
             book_cheapest st pickup dest prefs None =
               (book_ride a pickup dest prefs q, [(cheapest_app r, q)],
                case book_ride a pickup dest prefs q of
                  None \<Rightarrow> st1
                | Some b \<Rightarrow> st1\<lparr>last_booking := Some b\<rparr>)"
    using a(2) f b by (intro exI conjI)
qed

theorem book_cheapest_books_winner_only_witness:
  "compare_prices three_providers ''home'' ''airport'' some_prefs None =
     (Inr scenario_b_result, three_providers\<lparr>last_comparison := Some scenario_b_result\<rparr>) \<and>
   book_cheapest three_providers ''home'' ''airport'' some_prefs None =
     (None, [(''rapido'', quote ''Rapido'' ''Rapido Bike'' 99)],
      three_providers\<lparr>last_comparison := Some scenario_b_result\<rparr>)"
proof -
  from book_cheapest_books_winner_only[of three_providers "''home''" "''airport''" some_prefs]
    three_providers_compare
  obtain a q where
    a: "map_of (agents three_providers) (cheapest_app scenario_b_result) = Some a" and
    q: "fetch_price_from_app three_providers (cheapest_app scenario_b_result) ''home'' ''airport'' some_prefs = Some q" and
    b: "book_cheapest three_providers ''home'' ''airport'' some_prefs None =
               (book_ride a ''home'' ''airport'' some_prefs q, [(cheapest_app scenario_b_result, q)],
                case book_ride a ''home'' ''airport'' some_prefs q of
                  None \<Rightarrow> three_providers\<lparr>last_comparison := Some scenario_b_result\<rparr>
                | Some b \<Rightarrow> three_providers\<lparr>last_comparison := Some scenario_b_result, last_booking := Some b\<rparr>)"
    by blast
  have c: "cheapest_app scenario_b_result = ''rapido''" by (simp add: scenario_b_result_def)
  have a': "a = provider ''Rapido'' (Some (quote ''Rapido'' ''Rapido Bike'' 99)) False"
    using a unfolding c by (simp add: three_providers_def)
  have q': "q = quote ''Rapido'' ''Rapido Bike'' 99"
    using q unfolding c
    by (simp add: three_providers_def fetch_price_from_app_def getitem_def provider_def)
  have "book_ride a ''home'' ''airport'' some_prefs q = None"
    unfolding a' by (simp add: provider_def)
  then show ?thesis using b three_providers_compare unfolding c q' by simp
qed

text \<open>
  Claim C10. For every call in which every requested name is a registered provider,
  the default call included: if no provider's fetch returns a quote, \<open>compare_prices\<close>
  raises \<open>ValueError\<close>; otherwise it returns a result in which the quote stored under
  a key is exactly what that provider's own fetch returned. When one unregistered name
  stands before registered ones, every registered entry receives the result of the task
  of the entry after it and the last one receives nothing; with the three providers of
  Scenario B and \<open>lyft\<close> in front, the result holds Ola's quote under \<open>uber\<close> and
  Rapido's under \<open>ola\<close>, and Uber's own quote is dropped.
\<close>

theorem compare_prices_pairing:
  "(set (requested st apps_arg) \<subseteq> set (keys (agents st)) \<longrightarrow>
      ((\<forall>name \<in> set (requested st apps_arg).
           fetch_price_from_app st name pickup dest prefs = None) \<longrightarrow>
         compare_prices st pickup dest prefs apps_arg = (Inl ValueError, st)) \<and>
      ((\<exists>name \<in> set (requested st apps_arg).
           fetch_price_from_app st name pickup dest prefs \<noteq> None) \<longrightarrow>
         (\<exists>r. compare_prices st pickup dest prefs apps_arg =
                (Inr r, st\<lparr>last_comparison := Some r\<rparr>) \<and>
              (\<forall>k. map_of (prices r) k =
                 (if k \<in> set (requested st apps_arg)
                  then fetch_price_from_app st k pickup dest prefs else None))))) \<and>
   (u \<notin> set (keys (agents st)) \<and> set rest \<subseteq> set (keys (agents st)) \<and>
    foldl (store_next (\<lambda>n. fetch_price_from_app st n pickup dest prefs)) []
      (zip rest (tl rest)) \<noteq> [] \<longrightarrow>
      (\<exists>r. compare_prices st pickup dest prefs (Some (u # rest)) =
             (Inr r, st\<lparr>last_comparison := Some r\<rparr>) \<and>
           prices r =
             foldl (store_next (\<lambda>n. fetch_price_from_app st n pickup dest prefs)) []
               (zip rest (tl rest)))) \<and>
   compare_prices three_providers ''home'' ''airport'' some_prefs
       (Some [''lyft'', ''uber'', ''ola'', ''rapido'']) =
     (Inr shifted_result, three_providers\<lparr>last_comparison := Some shifted_result\<rparr>)"
proof (intro conjI impI)
  assume reg: "set (requested st apps_arg) \<subseteq> set (keys (agents st))"
    and "\<forall>name \<in> set (requested st apps_arg).
           fetch_price_from_app st name pickup dest prefs = None"
  then have "collect_prices st pickup dest prefs (requested st apps_arg) = []"
    by (intro collect_prices_all_fail)
  then show "compare_prices st pickup dest prefs apps_arg = (Inl ValueError, st)"
    by (rule compare_prices_empty)
next
  assume reg: "set (requested st apps_arg) \<subseteq> set (keys (agents st))"
    and ex: "\<exists>name \<in> set (requested st apps_arg).
           fetch_price_from_app st name pickup dest prefs \<noteq> None"
  note own = collect_prices_own[OF reg, of pickup dest prefs]
  from ex obtain name where name: "name \<in> set (requested st apps_arg)"
      "fetch_price_from_app st name pickup dest prefs \<noteq> None" by blast
  have "map_of (collect_prices st pickup dest prefs (requested st apps_arg)) name \<noteq> None"
    using own[of name] name by simp
  then have "collect_prices st pickup dest prefs (requested st apps_arg) \<noteq> []" by auto
  with compare_prices_by_collect[of st pickup dest prefs apps_arg] obtain r where
    r: "compare_prices st pickup dest prefs apps_arg = (Inr r, st\<lparr>last_comparison := Some r\<rparr>)"
       "prices r = collect_prices st pickup dest prefs (requested st apps_arg)"
    by blast
  have "\<forall>k. map_of (prices r) k =
                 (if k \<in> set (requested st apps_arg)
                  then fetch_price_from_app st k pickup dest prefs else None)"
    unfolding r(2) using own by blast
  then show "\<exists>r. compare_prices st pickup dest prefs apps_arg =
                (Inr r, st\<lparr>last_comparison := Some r\<rparr>) \<and>
              (\<forall>k. map_of (prices r) k =
                 (if k \<in> set (requested st apps_arg)
                  then fetch_price_from_app st k pickup dest prefs else None))"
    using r(1) by blast
next
  assume a: "u \<notin> set (keys (agents st)) \<and> set rest \<subseteq> set (keys (agents st)) \<and>
    foldl (store_next (\<lambda>n. fetch_price_from_app st n pickup dest prefs)) []
      (zip rest (tl rest)) \<noteq> []"
  then have sh: "collect_prices st pickup dest prefs (u # rest) =
      foldl (store_next (\<lambda>n. fetch_price_from_app st n pickup dest prefs)) [] (zip rest (tl rest))"
    by (intro collect_prices_shifted) simp_all
  have rq: "requested st (Some (u # rest)) = u # rest" by (simp add: requested_def)
  have "collect_prices st pickup dest prefs (requested st (Some (u # rest))) \<noteq> []"
    unfolding rq sh using a by simp
  with compare_prices_by_collect[of st pickup dest prefs "Some (u # rest)"] obtain r where
    r: "compare_prices st pickup dest prefs (Some (u # rest)) =
          (Inr r, st\<lparr>last_comparison := Some r\<rparr>)"
       "prices r = collect_prices st pickup dest prefs (requested st (Some (u # rest)))"
    by blast
  have "prices r =
      foldl (store_next (\<lambda>n. fetch_price_from_app st n pickup dest prefs)) [] (zip rest (tl rest))"
    using r(2) unfolding rq sh .
  then show "\<exists>r. compare_prices st pickup dest prefs (Some (u # rest)) =
             (Inr r, st\<lparr>last_comparison := Some r\<rparr>) \<and>
           prices r =
             foldl (store_next (\<lambda>n. fetch_price_from_app st n pickup dest prefs)) []
               (zip rest (tl rest))"
    using r(1) by blast
next
  show "compare_prices three_providers ''home'' ''airport'' some_prefs
       (Some [''lyft'', ''uber'', ''ola'', ''rapido'']) =
     (Inr shifted_result, three_providers\<lparr>last_comparison := Some shifted_result\<rparr>)"
    by (rule three_providers_compare_shifted)
qed

theorem compare_prices_pairing_witness:
  "compare_prices three_providers ''home'' ''airport'' some_prefs None =
     (Inr scenario_b_result, three_providers\<lparr>last_comparison := Some scenario_b_result\<rparr>) \<and>
   map_of (prices scenario_b_result) ''ola'' =
     fetch_price_from_app three_providers ''ola'' ''home'' ''airport'' some_prefs \<and>
   fetch_price_from_app three_providers ''ola'' ''home'' ''airport'' some_prefs =
     Some (quote ''Ola'' ''Ola Mini'' 150) \<and>
   compare_prices all_down ''home'' ''airport'' some_prefs None = (Inl ValueError, all_down)"
proof -
  note T = compare_prices_pairing[where st = three_providers and apps_arg = None
      and pickup = "''home''" and dest = "''airport''" and prefs = some_prefs,
      THEN conjunct1, THEN mp]
  have rq: "requested three_providers None = [''uber'', ''ola'', ''rapido'']"
    by (simp add: requested_def keys_def three_providers_def)
  have reg: "set (requested three_providers None) \<subseteq> set (keys (agents three_providers))"
    by (simp add: requested_def)
  have 2: "fetch_price_from_app three_providers ''ola'' ''home'' ''airport'' some_prefs =
     Some (quote ''Ola'' ''Ola Mini'' 150)"
    by (simp add: fetch_price_from_app_def getitem_def three_providers_def provider_def)
  have ex: "\<exists>name \<in> set (requested three_providers None).
           fetch_price_from_app three_providers name ''home'' ''airport'' some_prefs \<noteq> None"
  proof (rule bexI[of _ "''ola''"])
    show "fetch_price_from_app three_providers ''ola'' ''home'' ''airport'' some_prefs \<noteq> None"
      unfolding 2 by simp
    show "''ola'' \<in> set (requested three_providers None)" unfolding rq by simp
  qed
  from T[OF reg, THEN conjunct2, THEN mp, OF ex] obtain r where
    r: "compare_prices three_providers ''home'' ''airport'' some_prefs None =
          (Inr r, three_providers\<lparr>last_comparison := Some r\<rparr>)"
    and m: "\<forall>k. map_of (prices r) k =
                 (if k \<in> set (requested three_providers None)
                  then fetch_price_from_app three_providers k ''home'' ''airport'' some_prefs
                  else None)"
    by (elim exE conjE)
  have eq: "r = scenario_b_result" using r unfolding three_providers_compare by simp
  have "map_of (prices r) ''ola'' =
          (if ''ola'' \<in> set (requested three_providers None)
           then fetch_price_from_app three_providers ''ola'' ''home'' ''airport'' some_prefs
           else None)"
    using m by (rule spec)
  then have 1: "map_of (prices scenario_b_result) ''ola'' =
     fetch_price_from_app three_providers ''ola'' ''home'' ''airport'' some_prefs"
    unfolding eq rq by simp
  note D = compare_prices_pairing[where st = all_down and apps_arg = None
      and pickup = "''home''" and dest = "''airport''" and prefs = some_prefs,
      THEN conjunct1, THEN mp]
  have regd: "set (requested all_down None) \<subseteq> set (keys (agents all_down))"
    by (simp add: requested_def)
  have none: "\<forall>name \<in> set (requested all_down None).
      fetch_price_from_app all_down name ''home'' ''airport'' some_prefs = None"
    by (simp add: requested_def keys_def all_down_def fetch_price_from_app_def getitem_def
        provider_def)
  have 3: "compare_prices all_down ''home'' ''airport'' some_prefs None = (Inl ValueError, all_down)"
    using D[OF regd, THEN conjunct1, THEN mp, OF none] .
  show ?thesis using three_providers_compare 1 2 3 by (intro conjI)
qed

text \<open>
  Claim C1, at an input where the code departs from it. With the unregistered name
  \<open>lyft\<close> before \<open>uber\<close> and \<open>ola\<close>, Uber returning no quote and Ola quoting 99,
  \<open>compare_prices\<close> selects \<open>uber\<close>, a provider that returned no quote, and the only
  provider that did return one, \<open>ola\<close>, is absent from the quote map.
\<close>

theorem compare_prices_unregistered_entry_misattributes:
  "compare_prices uber_down ''home'' ''airport'' some_prefs (Some [''lyft'', ''uber'', ''ola'']) =
     (Inr misfiled_result, uber_down\<lparr>last_comparison := Some misfiled_result\<rparr>) \<and>
   cheapest_app misfiled_result = ''uber'' \<and>
   fetch_price_from_app uber_down ''uber'' ''home'' ''airport'' some_prefs = None \<and>
   fetch_price_from_app uber_down ''ola'' ''home'' ''airport'' some_prefs =
     Some (quote ''Ola'' ''Ola Mini'' 99)"
  by (simp add: compare_prices_def collect_prices_def requested_def gather_def
      fetch_price_from_app_def getitem_def keys_def uber_down_def provider_def
      py_min_def build_comparison_summary_def quote_def misfiled_result_def Let_def)

section \<open>Properties of the regular expressions and of the extractor\<close>

lemmas nlp_eval = parse_ride_preferences_def extract_destination_def match_destination_def
  match_destination_in_def ascii_uppercase_def ascii_lowercase_def
  COMMON_DESTINATIONS_def matching_keywords_def destination_pattern_def passengers_pattern_def
  space_char_def letter_or_space_def digit_char_def strip_def detect_passengers_def
  detect_ride_type_def detect_luggage_def detect_ac_preference_def is_specific_def isdigit_def
  isdigit_char_def py_int_def digit_value_def keys_def

text \<open>The inputs used below are in lower case already.\<close>

lemma lower_premium_rickshaw: "lower ''premium rickshaw'' = ''premium rickshaw''"
  by (simp add: lower_def lower_char_def ascii_uppercase_def ascii_lowercase_def
      latin1_uppercase_def latin1_lowercase_def)

lemma lower_no_ac: "lower ''no ac'' = ''no ac''"
  by (simp add: lower_def lower_char_def ascii_uppercase_def ascii_lowercase_def
      latin1_uppercase_def latin1_lowercase_def)

lemma lower_go_to_mall: "lower ''go to mall'' = ''go to mall''"
  by (simp add: lower_def lower_char_def ascii_uppercase_def ascii_lowercase_def
      latin1_uppercase_def latin1_lowercase_def)

lemma lower_office_work_sec_128: "lower ''office work sec 128'' = ''office work sec 128''"
  by (simp add: lower_def lower_char_def ascii_uppercase_def ascii_lowercase_def
      latin1_uppercase_def latin1_lowercase_def)

lemma greedy_result:
  "greedy cls k s cap = Some res \<Longrightarrow> \<exists>s'. k s' cap = Some res"
proof (induction s)
  case Nil
  then show ?case by simp
next
  case (Cons c cs)
  show ?case
  proof (cases "greedy cls k cs cap")
    case None
    then have "k cs cap = Some res" using Cons.prems by (simp split: if_splits)
    then show ?thesis by blast
  next
    case (Some r)
    then have "r = res" using Cons.prems by (simp split: if_splits)
    then show ?thesis using Cons.IH Some by simp
  qed
qed

lemma lazy_result:
  "lazy cls k s cap = Some res \<Longrightarrow> \<exists>s'. k s' cap = Some res"
proof (induction s)
  case Nil
  then show ?case by simp
next
  case (Cons c cs)
  show ?case
  proof (cases "k cs cap")
    case None
    then have "lazy cls k cs cap = Some res" using Cons.prems by (simp split: if_splits)
    then show ?thesis by (rule Cons.IH)
  next
    case (Some r)
    then have "r = res" using Cons.prems by (simp split: if_splits)
    then show ?thesis using Some by blast
  qed
qed

lemma rx_match_result:
  "rx_match r s cap k = Some res \<Longrightarrow>
   \<exists>s' cap'. k s' cap' = Some res \<and> (sets_group r \<or> cap \<noteq> None \<longrightarrow> cap' \<noteq> None)"
proof (induction r arbitrary: s cap k)
  case (Lit l)
  then have "k (drop (length l) s) cap = Some res" by (simp split: if_splits)
  then show ?case by auto
next
  case (Plus cls)
  then have "greedy cls k s cap = Some res" by simp
  from greedy_result[OF this] show ?case by auto
next
  case (PlusLazy cls)
  then have "lazy cls k s cap = Some res" by simp
  from lazy_result[OF this] show ?case by auto
next
  case (Alt a b)
  show ?case
  proof (cases "rx_match a s cap k")
    case None
    then have "rx_match b s cap k = Some res" using Alt.prems by simp
    from Alt.IH(2)[OF this] obtain s' cap' where
      1: "k s' cap' = Some res" "sets_group b \<or> cap \<noteq> None \<longrightarrow> cap' \<noteq> None" by auto
    have "sets_group (Alt a b) \<or> cap \<noteq> None \<longrightarrow> cap' \<noteq> None" using 1(2) by auto
    then show ?thesis using 1(1) by blast
  next
    case (Some r')
    then have "rx_match a s cap k = Some res" using Alt.prems by simp
    from Alt.IH(1)[OF this] obtain s' cap' where
      1: "k s' cap' = Some res" "sets_group a \<or> cap \<noteq> None \<longrightarrow> cap' \<noteq> None" by auto
    have "sets_group (Alt a b) \<or> cap \<noteq> None \<longrightarrow> cap' \<noteq> None" using 1(2) by auto
    then show ?thesis using 1(1) by blast
  qed
next
  case (Seq a b)
  then have "rx_match a s cap (\<lambda>s' cap'. rx_match b s' cap' k) = Some res" by simp
  from Seq.IH(1)[OF this] obtain s1 c1 where
    1: "rx_match b s1 c1 k = Some res" "sets_group a \<or> cap \<noteq> None \<longrightarrow> c1 \<noteq> None"
    by auto
  from Seq.IH(2)[OF 1(1)] obtain s2 c2 where
    2: "k s2 c2 = Some res" "sets_group b \<or> c1 \<noteq> None \<longrightarrow> c2 \<noteq> None"
    by auto
  have "sets_group (Seq a b) \<or> cap \<noteq> None \<longrightarrow> c2 \<noteq> None" using 1(2) 2(2) by auto
  then show ?case using 2(1) by blast
next
  case (Opt a)
  show ?case
  proof (cases "rx_match a s cap k")
    case None
    then have "k s cap = Some res" using Opt.prems by simp
    then show ?thesis by auto
  next
    case (Some r')
    then have "rx_match a s cap k = Some res" using Opt.prems by simp
    from Opt.IH[OF this] obtain s' cap' where
      1: "k s' cap' = Some res" "sets_group a \<or> cap \<noteq> None \<longrightarrow> cap' \<noteq> None" by auto
    have "sets_group (Opt a) \<or> cap \<noteq> None \<longrightarrow> cap' \<noteq> None" using 1(2) by auto
    then show ?thesis using 1(1) by blast
  qed
next
  case (Group a)
  then have "rx_match a s cap (\<lambda>s' cap'. k s' (Some (take (length s - length s') s))) = Some res"
    by simp
  from Group.IH[OF this] obtain s1 c1 where
    "k s1 (Some (take (length s - length s1) s)) = Some res" by auto
  then show ?case by blast
qed

lemma search_group:
  "sets_group r \<Longrightarrow> search r s = Some g \<Longrightarrow> g \<noteq> None"
proof (induction s)
  case Nil
  then have "rx_match r [] None (\<lambda>s' cap. Some cap) = Some g" by simp
  from rx_match_result[OF this] show ?case using Nil.prems(1) by auto
next
  case (Cons c cs)
  show ?case
  proof (cases "rx_match r (c # cs) None (\<lambda>s' cap. Some cap)")
    case None
    then have "search r cs = Some g" using Cons.prems(2) by simp
    then show ?thesis using Cons.IH Cons.prems(1) by simp
  next
    case (Some g')
    then have "rx_match r (c # cs) None (\<lambda>s' cap. Some cap) = Some g" using Cons.prems(2) by simp
    from rx_match_result[OF this] show ?thesis using Cons.prems(1) by auto
  qed
qed

lemma sets_group_destination_pattern: "sets_group destination_pattern"
  by (simp add: destination_pattern_def)

lemma sets_group_passengers_pattern: "sets_group passengers_pattern"
  by (simp add: passengers_pattern_def)

lemma extract_destination_total: "\<exists>dest. extract_destination s = Inr dest"
proof (cases "search destination_pattern (lower s)")
  case None
  then show ?thesis by (simp add: extract_destination_def split: option.splits)
next
  case (Some g)
  from search_group[OF sets_group_destination_pattern Some] obtain t where "g = Some t" by auto
  then show ?thesis using Some by (simp add: extract_destination_def split: option.splits)
qed

lemma greedy_replicate:
  assumes "cls c" "greedy cls k rest cap = None" "k rest cap = Some r"
  shows "greedy cls k (replicate (Suc n) c @ rest) cap = Some r"
proof (induction n)
  case 0
  show ?case using assms by simp
next
  case (Suc n)
  have "greedy cls k (replicate (Suc (Suc n)) c @ rest) cap =
        greedy cls k (c # (replicate (Suc n) c @ rest)) cap" by simp
  also have "\<dots> = Some r" using assms(1) Suc unfolding greedy.simps by simp
  finally show ?case .
qed

lemma lower_crowd: "lower (crowd n) = crowd n"
  by (simp add: crowd_def lower_def lower_char_def ascii_uppercase_def ascii_lowercase_def
      latin1_uppercase_def latin1_lowercase_def)

lemma contains_we_crowd: "contains ''we'' (crowd n)"
  by (simp add: crowd_def)

lemma search_crowd:
  "search passengers_pattern (crowd (Suc n)) = Some (Some (replicate (Suc n) (CHR ''1'')))"
proof -
  define final :: "string \<Rightarrow> string option \<Rightarrow> string option option" where
    "final = (\<lambda>s' cap. Some cap)"
  define S where "S = replicate (Suc n) (CHR ''1'') @ '' people''"
  define K :: "string \<Rightarrow> string option \<Rightarrow> string option option" where "K = (\<lambda>s' cap'. rx_match (Seq (Plus space_char)
        (Alt (Lit ''of us'') (Alt (Lit ''people'') (Alt (Lit ''passengers'') (Lit ''persons'')))))
        s' (Some (take (length S - length s') S)) final)"
  have len: "length S - length '' people'' = Suc n" by (simp add: S_def)
  have tk: "take (length S - length '' people'') S = replicate (Suc n) (CHR ''1'')"
    unfolding len by (simp add: S_def)
  have k: "K '' people'' None = Some (Some (replicate (Suc n) (CHR ''1'')))"
    unfolding K_def tk by (simp add: space_char_def final_def)
  have g0: "greedy digit_char K '' people'' None = None"
    by (simp add: digit_char_def)
  have g: "greedy digit_char K S None = Some (Some (replicate (Suc n) (CHR ''1'')))"
    unfolding S_def by (rule greedy_replicate[OF _ g0 k]) (simp add: digit_char_def)
  have m: "rx_match passengers_pattern S None final = greedy digit_char K S None"
    by (simp add: passengers_pattern_def K_def)
  have S: "S = CHR ''1'' # (replicate n (CHR ''1'') @ '' people'')" by (simp add: S_def)
  have "search passengers_pattern S = Some (Some (replicate (Suc n) (CHR ''1'')))"
    using m g unfolding final_def by (subst S, subst search.simps, fold S) simp
  moreover have "search passengers_pattern (crowd (Suc n)) = search passengers_pattern S"
    unfolding crowd_def S_def[symmetric]
    by (simp add: passengers_pattern_def digit_char_def)
  ultimately show ?thesis by simp
qed

lemma crowd_fails:
  assumes "4300 \<le> n"
  shows "parse_ride_preferences (crowd (Suc n)) = ErrorText ValueError"
proof -
  have "detect_passengers (lower (crowd (Suc n))) = Inl ValueError"
    unfolding lower_crowd using assms contains_we_crowd[of "Suc n"] search_crowd[of n]
    by (simp add: detect_passengers_def py_int_def)
  moreover obtain dest where "extract_destination (crowd (Suc n)) = Inr dest"
    using extract_destination_total by blast
  ultimately show ?thesis by (simp add: parse_ride_preferences_def)
qed

lemma parse_ride_type:
  "parse_ride_preferences s = PreferencesJson p \<Longrightarrow> ride_type p = detect_ride_type (lower s)"
  by (auto simp: parse_ride_preferences_def split: sum.splits)

lemma parse_ac_preference:
  "parse_ride_preferences s = PreferencesJson p \<Longrightarrow>
   ac_preference p = detect_ac_preference (lower s)"
  by (auto simp: parse_ride_preferences_def split: sum.splits)

lemma detect_ride_type_priority: "detect_ride_type low = classify_by_priority low"
  by (simp add: detect_ride_type_def classify_by_priority_def category_groups_def has_token_def
      rickshaw_tokens_def premium_tokens_def)

lemma contains_sublist: "contains kw s \<longleftrightarrow> sublist kw s"
  by (induction s) (simp_all add: sublist_Cons_right)

lemma contains_trans: "contains a b \<Longrightarrow> contains b c \<Longrightarrow> contains a c"
  unfolding contains_sublist by (rule sublist_order.order_trans)

lemma negation_token_contains_ac:
  assumes "list_ex (\<lambda>word. contains word low) [''no ac'', ''without ac'', ''non-ac'']"
  shows "contains ''ac'' low"
proof -
  have a: "contains ''ac'' ''no ac''" and b: "contains ''ac'' ''without ac''"
    and c: "contains ''ac'' ''non-ac''"
    by simp_all
  from assms consider "contains ''no ac'' low" | "contains ''without ac'' low"
    | "contains ''non-ac'' low" by auto
  then show ?thesis
  proof cases
    case 1
    show ?thesis by (rule contains_trans[OF a 1])
  next
    case 2
    show ?thesis by (rule contains_trans[OF b 2])
  next
    case 3
    show ?thesis by (rule contains_trans[OF c 3])
  qed
qed

lemma detect_ac_preference_values:
  "detect_ac_preference low = (if contains ''ac'' low \<or> contains ''air'' low then Some True else None)"
  using negation_token_contains_ac[of low] by (auto simp: detect_ac_preference_def)

text \<open>The extracted AC preference is never \<open>False\<close>.\<close>

lemma ac_preference_never_False:
  assumes "parse_ride_preferences s = PreferencesJson p"
  shows "ac_preference p \<noteq> Some False"
  unfolding parse_ac_preference[OF assms] detect_ac_preference_values by simp

lemma parse_premium_rickshaw:
  "parse_ride_preferences ''premium rickshaw'' =
     PreferencesJson \<lparr>destination = ''current location'', ride_type = ''rickshaw'',
       vehicle_type = None, passengers = 1, luggage = False, ac_preference = None,
       budget_constraint = None\<rparr>"
  by (simp add: nlp_eval lower_premium_rickshaw)

lemma detect_passengers_cases:
  "detect_passengers (lower s) = (if too_many_digits s then Inl ValueError else detect_passengers (lower s)) \<and>
   (\<not> too_many_digits s \<longrightarrow> (\<exists>n. detect_passengers (lower s) = Inr n))"
proof (cases "search passengers_pattern (lower s)")
  case None
  then show ?thesis by (simp add: detect_passengers_def too_many_digits_def)
next
  case (Some g)
  from search_group[OF sets_group_passengers_pattern Some] obtain ds where "g = Some ds" by auto
  then show ?thesis using Some by (simp add: detect_passengers_def too_many_digits_def py_int_def)
qed

lemma parse_ride_preferences_cases:
  "(too_many_digits s \<longrightarrow> parse_ride_preferences s = ErrorText ValueError) \<and>
   (\<not> too_many_digits s \<longrightarrow>
      (\<exists>dest n. extract_destination s = Inr dest \<and> detect_passengers (lower s) = Inr n \<and>
         parse_ride_preferences s =
           PreferencesJson
             \<lparr>destination = dest, ride_type = detect_ride_type (lower s), vehicle_type = None,
              passengers = n, luggage = detect_luggage (lower s),
              ac_preference = detect_ac_preference (lower s), budget_constraint = None\<rparr>))"
proof -
  obtain dest where d: "extract_destination s = Inr dest" using extract_destination_total by blast
  show ?thesis
  proof (cases "too_many_digits s")
    case True
    then have "detect_passengers (lower s) = Inl ValueError"
      using detect_passengers_cases[of s] by simp
    then show ?thesis using True d by (simp add: parse_ride_preferences_def)
  next
    case False
    then obtain n where "detect_passengers (lower s) = Inr n"
      using detect_passengers_cases[of s] by blast
    then show ?thesis using False d by (simp add: parse_ride_preferences_def)
  qed
qed

lemma too_many_digits_crowd: "4300 \<le> n \<Longrightarrow> too_many_digits (crowd (Suc n))"
  using contains_we_crowd[of "Suc n"] search_crowd[of n]
  by (simp add: too_many_digits_def lower_crowd)

lemma not_too_many_digits_premium_rickshaw: "\<not> too_many_digits ''premium rickshaw''"
  by (simp add: too_many_digits_def lower_premium_rickshaw)

section \<open>Properties of \<open>_match_destination\<close>\<close>

lemma dict_set_fresh: "k \<notin> set (keys d) \<Longrightarrow> dict_set k v d = d @ [(k, v)]"
  by (induction d) (auto simp: keys_def)

lemma matching_keywords_count:
  "matching_keywords low (snd entry) \<noteq> [] \<longleftrightarrow> 0 < match_count low entry"
  by (simp add: matching_keywords_def match_count_def)

lemma collect_matches_candidates:
  "distinct (keys table) \<Longrightarrow> set (keys table) \<inter> set (keys acc) = {} \<Longrightarrow>
   collect_matches table low acc =
   acc @ map (\<lambda>entry. (fst entry, match_count low entry)) (candidates table low)"
proof (induction table arbitrary: acc)
  case Nil
  show ?case by (simp add: candidates_def)
next
  case (Cons e rest)
  have d: "distinct (keys rest)" and e: "fst e \<notin> set (keys rest)" "fst e \<notin> set (keys acc)"
    and dis: "set (keys rest) \<inter> set (keys acc) = {}"
    using Cons.prems by (auto simp: keys_def)
  show ?case
  proof (cases "0 < match_count low e")
    case True
    define acc' where "acc' = acc @ [(fst e, match_count low e)]"
    have "set (keys rest) \<inter> set (keys acc') = {}" using dis e(1) by (auto simp: acc'_def keys_def)
    from Cons.IH[OF d this]
    have "collect_matches rest low acc' =
          acc' @ map (\<lambda>entry. (fst entry, match_count low entry)) (candidates rest low)" .
    moreover have "collect_matches (e # rest) low acc = collect_matches rest low acc'"
      using True dict_set_fresh[OF e(2)]
      by (simp add: matching_keywords_count acc'_def) (simp add: match_count_def matching_keywords_def)
    moreover have "candidates (e # rest) low = e # candidates rest low"
      using True by (simp add: candidates_def)
    ultimately show ?thesis by (simp add: acc'_def)
  next
    case False
    have "collect_matches (e # rest) low acc = collect_matches rest low acc"
      using False by (simp add: matching_keywords_count)
    moreover have "candidates (e # rest) low = candidates rest low"
      using False by (simp add: candidates_def)
    ultimately show ?thesis using Cons.IH[OF d dis] by simp
  qed
qed

lemma specific_hit_filter:
  "filter (\<lambda>kw. is_specific kw \<and> contains kw low) (snd entry) \<noteq> [] \<longleftrightarrow>
   has_specific_hit low entry"
  by (auto simp: has_specific_hit_def filter_empty_conv list_ex_iff)

lemma disambiguate_find:
  "\<forall>e \<in> set rest. fst e \<in> set (keys matches) \<longleftrightarrow> 0 < match_count low e \<Longrightarrow>
   disambiguate rest low matches =
   map_option fst (find (has_specific_hit low) (filter (\<lambda>e. 0 < match_count low e) rest))"
proof (induction rest)
  case Nil
  show ?case by simp
next
  case (Cons e rest)
  have IH: "disambiguate rest low matches =
      map_option fst (find (has_specific_hit low) (filter (\<lambda>e. 0 < match_count low e) rest))"
    using Cons by simp
  have e: "fst e \<in> set (keys matches) \<longleftrightarrow> 0 < match_count low e" using Cons.prems by simp
  show ?case
  proof (cases "0 < match_count low e")
    case True
    then show ?thesis using e IH by (simp add: specific_hit_filter)
  next
    case False
    then show ?thesis using e IH by simp
  qed
qed

lemma max_loop_first:
  fixes key :: "'a \<Rightarrow> nat"
  shows "\<exists>m pre post. max_loop key best xs = m \<and> best # xs = pre @ m # post \<and>
     (\<forall>x \<in> set pre. key x < key m) \<and> (\<forall>x \<in> set post. key x \<le> key m)"
proof (induction xs arbitrary: best)
  case Nil
  have "max_loop key best [] = best \<and> best # [] = [] @ best # [] \<and>
     (\<forall>x \<in> set []. key x < key best) \<and> (\<forall>x \<in> set []. key x \<le> key best)" by simp
  then show ?case by blast
next
  case (Cons a xs)
  show ?case
  proof (cases "key best < key a")
    case True
    from Cons.IH[of a] obtain m pre post where
      1: "max_loop key a xs = m" "a # xs = pre @ m # post"
         "\<forall>x \<in> set pre. key x < key m" "\<forall>x \<in> set post. key x \<le> key m"
      by blast
    have "a \<in> set (pre @ m # post)" using 1(2) by (metis list.set_intros(1))
    then have "key a \<le> key m" using 1(3,4) by (auto intro: less_imp_le)
    then have lt: "key best < key m" using True by simp
    have 0: "max_loop key best (a # xs) = m" using True 1(1) by simp
    have 2: "best # a # xs = (best # pre) @ m # post" using 1(2) by simp
    have 3: "\<forall>x \<in> set (best # pre). key x < key m" using 1(3) lt by simp
    show ?thesis using 0 2 3 1(4) by blast
  next
    case False
    from Cons.IH[of best] obtain m pre post where
      1: "max_loop key best xs = m" "best # xs = pre @ m # post"
         "\<forall>x \<in> set pre. key x < key m" "\<forall>x \<in> set post. key x \<le> key m"
      by blast
    have 0: "max_loop key best (a # xs) = m" using False 1(1) by simp
    have "best \<in> set (pre @ m # post)" using 1(2) by (metis list.set_intros(1))
    then have "key best \<le> key m" using 1(3,4) by (auto intro: less_imp_le)
    then have le: "key a \<le> key m" using False by simp
    show ?thesis
    proof (cases pre)
      case Nil
      then have 2: "best # a # xs = [] @ m # (a # post)" using 1(2) by simp
      have 3: "\<forall>x \<in> set (a # post). key x \<le> key m" using 1(4) le by simp
      have 4: "\<forall>x \<in> set ([]::'a list). key x < key m" by simp
      show ?thesis using 0 2 3 4 by blast
    next
      case (Cons b pre')
      then have b: "b = best" "xs = pre' @ m # post" using 1(2) by auto
      have "key best < key m" using 1(3) Cons b by simp
      then have lt: "key a < key m" using False by simp
      have 2: "best # a # xs = (best # a # pre') @ m # post" using b by simp
      have 3: "\<forall>x \<in> set (best # a # pre'). key x < key m" using 1(3) Cons b lt by simp
      show ?thesis using 0 2 3 1(4) by blast
    qed
  qed
qed

lemma find_first_max:
  fixes key :: "'a \<Rightarrow> nat"
  assumes "l = pre @ m # post" "\<forall>x \<in> set pre. key x < key m" "\<forall>x \<in> set post. key x \<le> key m"
  shows "find (\<lambda>c. list_all (\<lambda>c'. key c' \<le> key c) l) l = Some m"
proof -
  have top: "list_all (\<lambda>c'. key c' \<le> key m) l"
    using assms by (auto simp: list_all_iff intro: less_imp_le)
  have low: "\<not> list_all (\<lambda>c'. key c' \<le> key x) l" if "x \<in> set pre" for x
    using assms that by (auto simp: list_all_iff)
  have "find (\<lambda>c. list_all (\<lambda>c'. key c' \<le> key c) l) (pre @ m # post) = Some m"
    using top low by (induction pre) auto
  then show ?thesis using assms(1) by simp
qed

lemma max_loop_map:
  "max_loop key (g best) (map g xs) = g (max_loop (\<lambda>x. key (g x)) best xs)"
  by (induction xs arbitrary: best) simp_all

lemma distinct_keys_entry:
  "distinct (keys table) \<Longrightarrow> e \<in> set table \<Longrightarrow> e' \<in> set table \<Longrightarrow> fst e = fst e' \<Longrightarrow> e = e'"
  unfolding keys_def by (metis eq_key_imp_eq_value prod.collapse)

lemma highest_count_first_max_loop:
  "highest_count_first low (c # cs) = Some (max_loop (match_count low) c cs)"
proof -
  from max_loop_first[of "match_count low" c cs] obtain pre post where
    "c # cs = pre @ max_loop (match_count low) c cs # post"
    "\<forall>x \<in> set pre. match_count low x < match_count low (max_loop (match_count low) c cs)"
    "\<forall>x \<in> set post. match_count low x \<le> match_count low (max_loop (match_count low) c cs)"
    by blast
  from find_first_max[OF this] show ?thesis unfolding highest_count_first_def .
qed

lemma match_destination_in_ambiguous:
  assumes dist: "distinct (keys table)" and many: "1 < length (candidates table (lower s))"
  shows "match_destination_in table s = resolve_ambiguous table (lower s)"
proof -
  define low where "low = lower s"
  define g :: "string \<times> string list \<Rightarrow> string \<times> nat" where
    "g entry = (fst entry, match_count low entry)" for entry
  define cands where "cands = candidates table low"
  have len: "1 < length cands" using many by (simp add: cands_def low_def)
  obtain c rest where rest: "cands = c # rest" using len by (cases cands) auto
  obtain c' cs where "rest = c' # cs" using len rest by (cases rest) auto
  then have cands: "cands = c # c' # cs" using rest by simp
  have "set (keys table) \<inter> set (keys ([]::(string \<times> nat) list)) = {}" by (simp add: keys_def)
  from collect_matches_candidates[OF dist this, of low]
  have M: "collect_matches table low [] = map g cands"
    unfolding cands_def g_def by simp
  have Mk: "set (keys (map g cands)) = fst ` set cands" by (auto simp: keys_def g_def)
  have in_M: "\<forall>e \<in> set table. fst e \<in> set (keys (map g cands)) \<longleftrightarrow> 0 < match_count low e"
  proof
    fix e assume e: "e \<in> set table"
    show "fst e \<in> set (keys (map g cands)) \<longleftrightarrow> 0 < match_count low e"
    proof
      assume "fst e \<in> set (keys (map g cands))"
      then obtain e' where e': "e' \<in> set cands" "fst e = fst e'" unfolding Mk by auto
      have t: "e' \<in> set table" and pos: "0 < match_count low e'"
        using e'(1) by (simp_all add: cands_def candidates_def)
      have "e = e'" by (rule distinct_keys_entry[OF dist e t e'(2)])
      then show "0 < match_count low e" using pos by simp
    next
      assume "0 < match_count low e"
      then have "e \<in> set cands" using e by (simp add: cands_def candidates_def)
      then show "fst e \<in> set (keys (map g cands))" unfolding Mk by simp
    qed
  qed
  from disambiguate_find[OF this]
  have D: "disambiguate table low (map g cands) = map_option fst (find (has_specific_hit low) cands)"
    unfolding cands_def candidates_def .
  have "max_loop snd (g c) (map g (c' # cs)) = g (max_loop (\<lambda>x. snd (g x)) c (c' # cs))"
    by (rule max_loop_map)
  then have X: "fst (max_loop snd (g c) (g c' # map g cs)) = fst (max_loop (match_count low) c (c' # cs))"
    by (simp add: g_def)
  have first: "collect_matches table (lower s) [] = g c # g c' # map g cs"
    using M cands by (simp add: low_def)
  have "match_destination_in table s =
        (case disambiguate table low (map g cands) of
           Some dest \<Rightarrow> Some dest
         | None \<Rightarrow> Some (fst (max_loop snd (g c) (g c' # map g cs))))"
    unfolding match_destination_in_def Let_def first
    by (simp add: cands low_def)
  also have "\<dots> = (case find (has_specific_hit low) cands of
           Some entry \<Rightarrow> Some (fst entry)
         | None \<Rightarrow> Some (fst (max_loop (match_count low) c (c' # cs))))"
    unfolding D X by (cases "find (has_specific_hit low) cands") simp_all
  also have "\<dots> = (case find (has_specific_hit low) cands of
           Some entry \<Rightarrow> Some (fst entry)
         | None \<Rightarrow> map_option fst (highest_count_first low cands))"
    unfolding highest_count_first_max_loop[of low c "c' # cs", folded cands]
    by (cases "find (has_specific_hit low) cands") simp_all
  finally show ?thesis unfolding resolve_ambiguous_def cands_def low_def .
qed

lemma candidates_office_work_sec_128:
  "candidates COMMON_DESTINATIONS (lower ''office work sec 128'') =
     [(''work'', [''work'', ''office'', ''workplace'', ''company'']),
      (''jaypee institute of information technology sec 128 jaypee wishtown noida'',
         [''jaypee'', ''jiit'', ''sec 128'', ''sector 128'', ''wishtown'', ''noida''])]"
  by (simp add: candidates_def match_count_def COMMON_DESTINATIONS_def
      lower_office_work_sec_128)

lemma resolve_ambiguous_in_table:
  assumes "resolve_ambiguous table low = Some d"
  shows "d \<in> set (keys table)"
proof (cases "find (has_specific_hit low) (candidates table low)")
  case (Some e)
  then have "e \<in> set (candidates table low)" by (auto simp: find_Some_iff)
  then have "e \<in> set table" by (simp add: candidates_def)
  moreover have "d = fst e" using assms Some by (simp add: resolve_ambiguous_def)
  ultimately show ?thesis by (simp add: keys_def)
next
  case None
  then obtain e where e: "highest_count_first low (candidates table low) = Some e" "d = fst e"
    using assms by (auto simp: resolve_ambiguous_def)
  then have "e \<in> set (candidates table low)"
    unfolding highest_count_first_def by (auto simp: find_Some_iff)
  then have "e \<in> set table" by (simp add: candidates_def)
  then show ?thesis using e(2) by (simp add: keys_def)
qed

lemma parse_destination:
  "parse_ride_preferences s = PreferencesJson p \<Longrightarrow> extract_destination s = Inr (destination p)"
  by (auto simp: parse_ride_preferences_def split: sum.splits)

lemma extract_destination_matched:
  "match_destination s = Some d \<Longrightarrow> d \<noteq> [] \<Longrightarrow> extract_destination s = Inr d"
  by (simp add: extract_destination_def)

lemma common_destinations_named: "d \<in> set (keys COMMON_DESTINATIONS) \<Longrightarrow> d \<noteq> []"
  by (auto simp: keys_def COMMON_DESTINATIONS_def)

section \<open>The destination pattern matches one character\<close>

lemma lazy_first:
  assumes "\<And>s'. k s' cap \<noteq> None"
  shows "lazy cls k s cap = (case s of [] \<Rightarrow> None | c # cs \<Rightarrow> if cls c then k cs cap else None)"
proof (cases s)
  case Nil
  then show ?thesis by simp
next
  case (Cons c cs)
  obtain r where "k cs cap = Some r" using assms[of cs] by auto
  then show ?thesis using Cons by simp
qed

lemma groupless_result:
  "groupless r \<Longrightarrow> rx_match r s cap k = Some res \<Longrightarrow> \<exists>s'. k s' cap = Some res"
proof (induction r arbitrary: s k)
  case (Lit l)
  then have "k (drop (length l) s) cap = Some res" by (simp split: if_splits)
  then show ?case by blast
next
  case (Plus cls)
  then have "greedy cls k s cap = Some res" by simp
  then show ?case by (rule greedy_result)
next
  case (PlusLazy cls)
  then have "lazy cls k s cap = Some res" by simp
  then show ?case by (rule lazy_result)
next
  case (Alt a b)
  have ga: "groupless a" and gb: "groupless b" using Alt.prems(1) by simp_all
  show ?case
  proof (cases "rx_match a s cap k")
    case None
    then have "rx_match b s cap k = Some res" using Alt.prems(2) by simp
    from Alt.IH(2)[OF gb this] show ?thesis .
  next
    case (Some r')
    then have "rx_match a s cap k = Some res" using Alt.prems(2) by simp
    from Alt.IH(1)[OF ga this] show ?thesis .
  qed
next
  case (Seq a b)
  have ga: "groupless a" and gb: "groupless b" using Seq.prems(1) by simp_all
  have "rx_match a s cap (\<lambda>s' cap'. rx_match b s' cap' k) = Some res" using Seq.prems(2) by simp
  from Seq.IH(1)[OF ga this] obtain s1 where "rx_match b s1 cap k = Some res" by auto
  from Seq.IH(2)[OF gb this] show ?case .
next
  case (Opt a)
  have ga: "groupless a" using Opt.prems(1) by simp
  show ?case
  proof (cases "rx_match a s cap k")
    case None
    then have "k s cap = Some res" using Opt.prems(2) by simp
    then show ?thesis by blast
  next
    case (Some r')
    then have "rx_match a s cap k = Some res" using Opt.prems(2) by simp
    from Opt.IH[OF ga this] show ?thesis .
  qed
next
  case (Group a)
  then show ?case by simp
qed

lemma optional_tail:
  assumes "groupless a"
  shows "rx_match (Opt a) s cap (\<lambda>s' cap'. Some cap') = Some cap"
proof (cases "rx_match a s cap (\<lambda>s' cap'. Some cap')")
  case None
  then show ?thesis by simp
next
  case (Some r)
  from groupless_result[OF assms Some] have "r = cap" by auto
  then show ?thesis using Some by simp
qed

lemma destination_pattern_one_char:
  assumes "rx_match destination_pattern s None (\<lambda>s' cap. Some cap) = Some g"
  shows "\<exists>c. g = Some [c]"
proof -
  define Q where "Q = Seq (Plus space_char)
             (Alt (Lit ''in'') (Alt (Lit ''by'') (Alt (Lit ''using'') (Alt (Lit ''with'')
               (Alt (Lit ''as'') (Alt (Lit ''please'') (Lit ''now'')))))))"
  define M where "M = Alt (Lit ''to'') (Alt (Lit ''go to'') (Alt (Lit ''take me to'') (Alt (Lit ''head to'')
            (Alt (Seq (Lit ''toward'') (Opt (Lit ''s''))) (Lit ''near'')))))"
  define final :: "string \<Rightarrow> string option \<Rightarrow> string option option" where
    "final = (\<lambda>s' cap. Some cap)"
  have gQ: "groupless Q" by (simp add: Q_def)
  have tail: "rx_match (Opt Q) s' cap final = Some cap" for s' cap
    unfolding final_def by (rule optional_tail[OF gQ])
  have p: "destination_pattern = Seq M (Seq (Plus space_char) (Seq (Group (PlusLazy letter_or_space)) (Opt Q)))"
    by (simp add: destination_pattern_def M_def Q_def)
  have "rx_match M s None (\<lambda>s1 c1. rx_match (Seq (Plus space_char)
          (Seq (Group (PlusLazy letter_or_space)) (Opt Q))) s1 c1 final) = Some g"
    using assms unfolding p final_def by simp
  from rx_match_result[OF this] obtain s1 c1 where
    "rx_match (Seq (Plus space_char) (Seq (Group (PlusLazy letter_or_space)) (Opt Q))) s1 c1 final = Some g"
    by auto
  then have "greedy space_char (\<lambda>s2 c2. rx_match (Seq (Group (PlusLazy letter_or_space)) (Opt Q)) s2 c2 final)
      s1 c1 = Some g" by simp
  from greedy_result[OF this] obtain s2 where
    "rx_match (Seq (Group (PlusLazy letter_or_space)) (Opt Q)) s2 c1 final = Some g" by auto
  then have l: "lazy letter_or_space (\<lambda>s' cap'. Some (Some (take (length s2 - length s') s2))) s2 c1 = Some g"
    unfolding rx_match.simps(5) rx_match.simps(7) rx_match.simps(3) tail .
  have "lazy letter_or_space (\<lambda>s' cap'. Some (Some (take (length s2 - length s') s2))) s2 c1 =
        (case s2 of [] \<Rightarrow> None
         | c # cs \<Rightarrow> if letter_or_space c then Some (Some (take (length s2 - length cs) s2)) else None)"
    by (rule lazy_first) simp
  with l obtain c cs where "s2 = c # cs" "g = Some (take (length s2 - length cs) s2)"
    by (cases s2) (auto split: if_splits)
  then have "g = Some [c]" by simp
  then show ?thesis by blast
qed

lemma search_destination_one_char:
  "search destination_pattern s = Some g \<Longrightarrow> \<exists>c. g = Some [c]"
proof (induction s)
  case Nil
  then have "rx_match destination_pattern [] None (\<lambda>s' cap. Some cap) = Some g" by simp
  then show ?case by (rule destination_pattern_one_char)
next
  case (Cons a s)
  show ?case
  proof (cases "rx_match destination_pattern (a # s) None (\<lambda>s' cap. Some cap)")
    case None
    then have "search destination_pattern s = Some g" using Cons.prems by simp
    then show ?thesis by (rule Cons.IH)
  next
    case (Some g')
    then have "rx_match destination_pattern (a # s) None (\<lambda>s' cap. Some cap) = Some g"
      using Cons.prems by simp
    then show ?thesis by (rule destination_pattern_one_char)
  qed
qed

lemma strip_one_char: "length (strip [c]) \<le> 1"
  by (simp add: strip_def)

text \<open>
  Whenever no canonical destination matches, the destination taken from the pattern has
  at most one character.
\<close>

lemma regex_destination_short:
  assumes "match_destination s = None" "extract_destination s = Inr d"
  shows "d = ''current location'' \<or> length d \<le> 1"
proof (cases "search destination_pattern (lower s)")
  case None
  then show ?thesis using assms by (simp add: extract_destination_def)
next
  case (Some g)
  from search_destination_one_char[OF this] obtain c where "g = Some [c]" by auto
  then have "d = strip [c]" using assms Some by (simp add: extract_destination_def)
  then show ?thesis using strip_one_char[of c] by simp
qed

section \<open>The claims about the preference extractor\<close>

text \<open>
  Claim C3, as amended. \<open>parse_ride_preferences\<close> itself never raises. When the input
  names a passenger count of more than 4300 digits, \<open>int\<close> raises inside it and it
  returns the text \<open>Error: ...\<close>; no default record is put in its place, and
  \<open>parse_user_input\<close> raises to its caller. On every other input it returns the JSON
  text of the record built from the extracted fields, and \<open>parse_user_input\<close> returns
  that record.
\<close>

theorem parse_failure_surfaces:
  "(too_many_digits s \<longrightarrow>
      parse_ride_preferences s = ErrorText ValueError \<and>
      parse_user_input s = Inl JSONDecodeError) \<and>
   (\<not> too_many_digits s \<longrightarrow>
      (\<exists>dest n. extract_destination s = Inr dest \<and> detect_passengers (lower s) = Inr n \<and>
         parse_ride_preferences s =
           PreferencesJson
             \<lparr>destination = dest, ride_type = detect_ride_type (lower s), vehicle_type = None,
              passengers = n, luggage = detect_luggage (lower s),
              ac_preference = detect_ac_preference (lower s), budget_constraint = None\<rparr> \<and>
         parse_user_input s =
           Inr \<lparr>destination = dest, ride_type = detect_ride_type (lower s), vehicle_type = None,
              passengers = n, luggage = detect_luggage (lower s),
              ac_preference = detect_ac_preference (lower s), budget_constraint = None\<rparr>))"
proof (intro conjI impI)
  assume "too_many_digits s"
  then show "parse_ride_preferences s = ErrorText ValueError"
    using parse_ride_preferences_cases[of s] by simp
  then show "parse_user_input s = Inl JSONDecodeError" by (simp add: parse_user_input_def)
next
  assume "\<not> too_many_digits s"
  then obtain dest n where 1: "extract_destination s = Inr dest" "detect_passengers (lower s) = Inr n"
      "parse_ride_preferences s =
           PreferencesJson
             \<lparr>destination = dest, ride_type = detect_ride_type (lower s), vehicle_type = None,
              passengers = n, luggage = detect_luggage (lower s),
              ac_preference = detect_ac_preference (lower s), budget_constraint = None\<rparr>"
    using parse_ride_preferences_cases[of s] by blast
  have 2: "parse_user_input s =
           Inr \<lparr>destination = dest, ride_type = detect_ride_type (lower s), vehicle_type = None,
              passengers = n, luggage = detect_luggage (lower s),
              ac_preference = detect_ac_preference (lower s), budget_constraint = None\<rparr>"
    using 1(3) by (simp add: parse_user_input_def)
  show "\<exists>dest n. extract_destination s = Inr dest \<and> detect_passengers (lower s) = Inr n \<and>
         parse_ride_preferences s =
           PreferencesJson
             \<lparr>destination = dest, ride_type = detect_ride_type (lower s), vehicle_type = None,
              passengers = n, luggage = detect_luggage (lower s),
              ac_preference = detect_ac_preference (lower s), budget_constraint = None\<rparr> \<and>
         parse_user_input s =
           Inr \<lparr>destination = dest, ride_type = detect_ride_type (lower s), vehicle_type = None,
              passengers = n, luggage = detect_luggage (lower s),
              ac_preference = detect_ac_preference (lower s), budget_constraint = None\<rparr>"
    using 1 2 by (intro exI conjI)
qed

theorem parse_failure_surfaces_witness:
  "too_many_digits (crowd 4301) \<and>
   parse_ride_preferences (crowd 4301) = ErrorText ValueError \<and>
   parse_user_input (crowd 4301) = Inl JSONDecodeError \<and>
   parse_user_input ''premium rickshaw'' =
     Inr \<lparr>destination = ''current location'', ride_type = ''rickshaw'',
       vehicle_type = None, passengers = 1, luggage = False, ac_preference = None,
       budget_constraint = None\<rparr>"
proof -
  have n: "(4301::nat) = Suc 4300" by simp
  have 0: "too_many_digits (crowd 4301)" unfolding n by (rule too_many_digits_crowd) simp
  note T = parse_failure_surfaces[of "crowd 4301"] parse_failure_surfaces[of "''premium rickshaw''"]
  have 1: "parse_ride_preferences (crowd 4301) = ErrorText ValueError"
    and 2: "parse_user_input (crowd 4301) = Inl JSONDecodeError"
    using T(1) 0 by simp_all
  from T(2) not_too_many_digits_premium_rickshaw obtain dest n where
    p: "parse_ride_preferences ''premium rickshaw'' =
           PreferencesJson
             \<lparr>destination = dest, ride_type = detect_ride_type (lower ''premium rickshaw''),
              vehicle_type = None, passengers = n, luggage = detect_luggage (lower ''premium rickshaw''),
              ac_preference = detect_ac_preference (lower ''premium rickshaw''),
              budget_constraint = None\<rparr>"
    and u: "parse_user_input ''premium rickshaw'' =
           Inr \<lparr>destination = dest, ride_type = detect_ride_type (lower ''premium rickshaw''),
              vehicle_type = None, passengers = n, luggage = detect_luggage (lower ''premium rickshaw''),
              ac_preference = detect_ac_preference (lower ''premium rickshaw''),
              budget_constraint = None\<rparr>"
    by blast
  have 3: "parse_user_input ''premium rickshaw'' =
     Inr \<lparr>destination = ''current location'', ride_type = ''rickshaw'',
       vehicle_type = None, passengers = 1, luggage = False, ac_preference = None,
       budget_constraint = None\<rparr>"
    using p u parse_premium_rickshaw by simp
  show ?thesis using 0 1 2 3 by (intro conjI)
qed

text \<open>
  The claim C3 as stated fails: on a passenger count of 4301 digits the extractor
  returns the error text, not a default record, and \<open>parse_user_input\<close> raises.
\<close>

theorem parse_failure_returns_error_text:
  "parse_ride_preferences (''we '' @ replicate 4301 (CHR ''1'') @ '' people'') =
     ErrorText ValueError \<and>
   parse_user_input (''we '' @ replicate 4301 (CHR ''1'') @ '' people'') = Inl JSONDecodeError"
proof -
  have n: "(4301::nat) = Suc 4300" by simp
  have 1: "parse_ride_preferences (crowd 4301) = ErrorText ValueError"
    unfolding n by (rule crowd_fails) simp
  then have "parse_user_input (crowd 4301) = Inl JSONDecodeError"
    by (simp add: parse_user_input_def)
  then show ?thesis using 1 unfolding crowd_def by (intro conjI)
qed

text \<open>
  Claim C6. When more than one canonical destination has keywords in the lower-cased
  input, \<open>_match_destination\<close> returns the first candidate in table order that has a
  specific keyword in the input (a keyword of more than three characters that is all
  digits, or one that contains \<open>sec\<close> or \<open>sector\<close>), whatever the match counts are;
  when no candidate has one, it returns the candidate with the highest match count, the
  first in table order on ties. That destination is the one in the extracted
  preferences.
\<close>

theorem match_destination_disambiguation:
  assumes "1 < length (candidates COMMON_DESTINATIONS (lower s))"
  shows "match_destination s = resolve_ambiguous COMMON_DESTINATIONS (lower s) \<and>
         match_destination s \<noteq> None \<and>
         (\<forall>p. parse_ride_preferences s = PreferencesJson p \<longrightarrow>
            Some (destination p) = resolve_ambiguous COMMON_DESTINATIONS (lower s))"
proof -
  have "distinct (keys COMMON_DESTINATIONS)"
    by (simp add: keys_def COMMON_DESTINATIONS_def)
  from match_destination_in_ambiguous[OF this assms]
  have 1: "match_destination s = resolve_ambiguous COMMON_DESTINATIONS (lower s)"
    by (simp add: match_destination_def)
  obtain c cs where c: "candidates COMMON_DESTINATIONS (lower s) = c # cs"
    using assms by (cases "candidates COMMON_DESTINATIONS (lower s)") auto
  have "resolve_ambiguous COMMON_DESTINATIONS (lower s) \<noteq> None"
    unfolding resolve_ambiguous_def c highest_count_first_max_loop
    by (simp split: option.splits)
  then obtain d where d: "resolve_ambiguous COMMON_DESTINATIONS (lower s) = Some d" by auto
  have ne: "d \<noteq> []"
    using resolve_ambiguous_in_table[OF d] by (rule common_destinations_named)
  have e: "extract_destination s = Inr d"
    using 1 d ne by (simp add: extract_destination_matched)
  have 3: "\<forall>p. parse_ride_preferences s = PreferencesJson p \<longrightarrow>
            Some (destination p) = resolve_ambiguous COMMON_DESTINATIONS (lower s)"
  proof (intro allI impI)
    fix p assume "parse_ride_preferences s = PreferencesJson p"
    from parse_destination[OF this] e have "destination p = d" by simp
    then show "Some (destination p) = resolve_ambiguous COMMON_DESTINATIONS (lower s)"
      using d by simp
  qed
  have 2: "match_destination s \<noteq> None" using 1 d by simp
  show ?thesis using 1 2 3 by (intro conjI)
qed

theorem match_destination_disambiguation_witness:
  "length (candidates COMMON_DESTINATIONS (lower ''office work sec 128'')) = 2 \<and>
   match_count (lower ''office work sec 128'')
     (''work'', [''work'', ''office'', ''workplace'', ''company'']) = 2 \<and>
   match_count (lower ''office work sec 128'')
     (''jaypee institute of information technology sec 128 jaypee wishtown noida'',
      [''jaypee'', ''jiit'', ''sec 128'', ''sector 128'', ''wishtown'', ''noida'']) = 1 \<and>
   match_destination ''office work sec 128'' =
     Some ''jaypee institute of information technology sec 128 jaypee wishtown noida''"
proof -
  note c = candidates_office_work_sec_128
  have 1: "1 < length (candidates COMMON_DESTINATIONS (lower ''office work sec 128''))"
    unfolding c by simp
  have l: "lower ''office work sec 128'' = ''office work sec 128''"
    by (rule lower_office_work_sec_128)
  have 2: "resolve_ambiguous COMMON_DESTINATIONS (lower ''office work sec 128'') =
     Some ''jaypee institute of information technology sec 128 jaypee wishtown noida''"
    unfolding resolve_ambiguous_def c unfolding l
    by (simp add: has_specific_hit_def is_specific_def isdigit_def isdigit_char_def digit_char_def)
  have 3: "match_count (lower ''office work sec 128'')
     (''work'', [''work'', ''office'', ''workplace'', ''company'']) = 2"
    unfolding l by (simp add: match_count_def)
  have 4: "match_count (lower ''office work sec 128'')
     (''jaypee institute of information technology sec 128 jaypee wishtown noida'',
      [''jaypee'', ''jiit'', ''sec 128'', ''sector 128'', ''wishtown'', ''noida'']) = 1"
    unfolding l by (simp add: match_count_def)
  have 5: "length (candidates COMMON_DESTINATIONS (lower ''office work sec 128'')) = 2"
    unfolding c by simp
  show ?thesis using match_destination_disambiguation[OF 1] 2 3 4 5 by simp
qed

text \<open>
  Claim C7. The classification step of \<open>parse_ride_preferences\<close> tests the lower-cased
  input against the keyword groups in the priority order rickshaw, bike, auto, premium,
  with \<open>car\<close> when no group has a token in it; an input with a rickshaw token and a
  premium token is classified \<open>rickshaw\<close>. Whenever the extractor returns preferences
  (the passenger count is not refused), their ride category is the one so classified.
\<close>

theorem ride_type_priority:
  "detect_ride_type (lower s) = classify_by_priority (lower s) \<and>
   (has_token (lower s) rickshaw_tokens \<and> has_token (lower s) premium_tokens \<longrightarrow>
      detect_ride_type (lower s) = ''rickshaw'') \<and>
   (\<not> too_many_digits s \<longrightarrow>
      (\<exists>p. parse_ride_preferences s = PreferencesJson p \<and>
           ride_type p = detect_ride_type (lower s)))"
proof (intro conjI impI)
  show 1: "detect_ride_type (lower s) = classify_by_priority (lower s)"
    by (rule detect_ride_type_priority)
  assume "has_token (lower s) rickshaw_tokens \<and> has_token (lower s) premium_tokens"
  then have "classify_by_priority (lower s) = ''rickshaw''"
    by (simp add: classify_by_priority_def category_groups_def)
  then show "detect_ride_type (lower s) = ''rickshaw''" using 1 by simp
next
  assume "\<not> too_many_digits s"
  then obtain p where p: "parse_ride_preferences s = PreferencesJson p"
    using parse_ride_preferences_cases[of s] by blast
  from parse_ride_type[OF p] p
  show "\<exists>p. parse_ride_preferences s = PreferencesJson p \<and> ride_type p = detect_ride_type (lower s)"
    by blast
qed

theorem ride_type_priority_witness:
  "has_token (lower ''premium rickshaw'') rickshaw_tokens \<and>
   has_token (lower ''premium rickshaw'') premium_tokens \<and>
   detect_ride_type (lower ''premium rickshaw'') = ''rickshaw'' \<and>
   classify_by_priority (lower ''premium rickshaw'') = ''rickshaw'' \<and>
   parse_ride_preferences ''premium rickshaw'' =
     PreferencesJson \<lparr>destination = ''current location'', ride_type = ''rickshaw'',
       vehicle_type = None, passengers = 1, luggage = False, ac_preference = None,
       budget_constraint = None\<rparr>"
proof -
  have 2: "has_token (lower ''premium rickshaw'') rickshaw_tokens"
    by (simp add: has_token_def rickshaw_tokens_def lower_premium_rickshaw)
  have 3: "has_token (lower ''premium rickshaw'') premium_tokens"
    by (simp add: has_token_def premium_tokens_def lower_premium_rickshaw)
  note T = ride_type_priority[of "''premium rickshaw''"]
  have 4: "detect_ride_type (lower ''premium rickshaw'') = ''rickshaw''"
    using T 2 3 by blast
  have 5: "classify_by_priority (lower ''premium rickshaw'') = ''rickshaw''"
    using T 4 by simp
  from T not_too_many_digits_premium_rickshaw obtain p where
    "parse_ride_preferences ''premium rickshaw'' = PreferencesJson p" by blast
  then have 6: "parse_ride_preferences ''premium rickshaw'' =
     PreferencesJson \<lparr>destination = ''current location'', ride_type = ''rickshaw'',
       vehicle_type = None, passengers = 1, luggage = False, ac_preference = None,
       budget_constraint = None\<rparr>"
    using parse_premium_rickshaw by simp
  show ?thesis using 2 3 4 5 6 by (intro conjI)
qed

text \<open>
  Claim C8, at an input where the code departs from it. The input \<open>no ac\<close> holds the
  negation token \<open>no ac\<close>, and the extracted AC preference is \<open>True\<close>: the test for
  \<open>ac\<close> comes first, and every negation token contains \<open>ac\<close>.
\<close>

theorem negated_ac_is_preferred:
  "parse_ride_preferences ''no ac'' =
     PreferencesJson \<lparr>destination = ''current location'', ride_type = ''car'',
       vehicle_type = None, passengers = 1, luggage = False, ac_preference = Some True,
       budget_constraint = None\<rparr>"
  by (simp add: nlp_eval lower_no_ac)

text \<open>
  Claim C9, at an input where the code departs from it. No canonical destination
  matches \<open>go to mall\<close>, the phrase after the marker \<open>go to\<close> is \<open>mall\<close>, and the
  extracted destination is \<open>m\<close>: the lazy group stops after one character, because the
  optional qualifier after it may match nothing.
\<close>

theorem destination_is_one_letter:
  "match_destination ''go to mall'' = None \<and>
   search destination_pattern (lower ''go to mall'') = Some (Some ''m'') \<and>
   parse_ride_preferences ''go to mall'' =
     PreferencesJson \<lparr>destination = ''m'', ride_type = ''car'', vehicle_type = None,
       passengers = 1, luggage = False, ac_preference = None, budget_constraint = None\<rparr>"
  by (simp add: nlp_eval lower_go_to_mall)

end
